theory Spec2Isabelle
  imports Complex_Main "HOL-Library.AList" "HOL-Library.Char_ord" "HOL-Library.List_Lexorder"
    "HOL-Library.Multiset"
begin

section \<open>Strings of the host language\<close>

text \<open>
  A JavaScript string is a sequence of UTF-16 code units. The model uses \<^typ>\<open>string\<close>,
  whose characters are the code units 0 to 255 (ASCII and Latin-1); texts with code units
  above 255 are outside the model. Counts (word frequencies, pair counts, token ids, sizes)
  are natural numbers; the doubles of the source hold them exactly below \<open>2^53\<close>.
\<close>

definition SP :: char where
  "SP = CHR '' ''"

definition EOW :: string where
  "EOW = ''</w>''"

definition isWhiteSpace :: "char \<Rightarrow> bool" where
  \<comment> \<open>the white-space class of patterns and of \<open>trim\<close>: TAB, LF, VT, FF, CR, SP, NBSP\<close>
  "isWhiteSpace c = (of_char c \<in> {9, 10, 11, 12, 13, 32, 160 :: nat})"

definition isWordChar :: "char \<Rightarrow> bool" where
  \<comment> \<open>the word characters of the word boundary: \<open>A-Z\<close>, \<open>a-z\<close>, \<open>0-9\<close> and the underscore\<close>
  "isWordChar c = (let n = of_char c :: nat in
     (48 \<le> n \<and> n \<le> 57) \<or> (65 \<le> n \<and> n \<le> 90) \<or> n = 95 \<or> (97 \<le> n \<and> n \<le> 122))"

definition toLowerChar :: "char \<Rightarrow> char" where
  \<comment> \<open>\<open>A-Z\<close> and the Latin-1 capitals (0xC0 to 0xDE without the multiplication sign 0xD7)\<close>
  "toLowerChar c = (let n = of_char c :: nat in
     if (65 \<le> n \<and> n \<le> 90) \<or> (192 \<le> n \<and> n \<le> 222 \<and> n \<noteq> 215) then char_of (n + 32) else c)"

definition toLowerCase :: "string \<Rightarrow> string" where
  "toLowerCase s = map toLowerChar s"

definition trim :: "string \<Rightarrow> string" where
  "trim s = rev (dropWhile isWhiteSpace (rev (dropWhile isWhiteSpace s)))"

text \<open>Replacing every white-space run by a space: each maximal run becomes one space.\<close>

function collapseWhiteSpace :: "string \<Rightarrow> string" where
  "collapseWhiteSpace [] = []"
| "collapseWhiteSpace (c # cs) =
     (if isWhiteSpace c then SP # collapseWhiteSpace (dropWhile isWhiteSpace cs)
      else c # collapseWhiteSpace cs)"
  by pat_completeness auto
termination
  by (relation "measure length") (auto simp: less_Suc_eq_le length_dropWhile_le)

text \<open>
  Splitting at white-space runs: the pieces between maximal runs of white space; a run at either end
  leaves an empty piece there, and the empty string gives one empty piece.
\<close>

function splitWhiteSpace :: "string \<Rightarrow> string list" where
  "splitWhiteSpace [] = [[]]"
| "splitWhiteSpace (c # cs) =
     (if isWhiteSpace c then [] # splitWhiteSpace (dropWhile isWhiteSpace cs)
      else (case splitWhiteSpace cs of
              [] \<Rightarrow> [[c]]
            | w # ws \<Rightarrow> (c # w) # ws))"
  by pat_completeness auto
termination
  by (relation "measure length") (auto simp: less_Suc_eq_le length_dropWhile_le)

text \<open>\<open>s.split(' ')\<close>: the pieces between single spaces, empty pieces kept.\<close>

fun splitSpace :: "string \<Rightarrow> string list" where
  "splitSpace [] = [[]]"
| "splitSpace (c # cs) =
     (if c = SP then [] # splitSpace cs
      else (case splitSpace cs of
              [] \<Rightarrow> [[c]]
            | w # ws \<Rightarrow> (c # w) # ws))"

text \<open>\<open>s.split('')\<close>: one string per code unit.\<close>

definition splitChars :: "string \<Rightarrow> string list" where
  "splitChars s = map (\<lambda>c. [c]) s"

text \<open>\<open>xs.join(sep)\<close>.\<close>

fun joinWith :: "string \<Rightarrow> string list \<Rightarrow> string" where
  "joinWith sep [] = []"
| "joinWith sep [x] = x"
| "joinWith sep (x # y # ys) = x @ sep @ joinWith sep (y # ys)"

section \<open>Maps in insertion order\<close>

text \<open>
  A JavaScript \<open>Map\<close> iterates in insertion order, and \<open>set\<close> on a present key keeps the
  key's place: an association list updated by \<^const>\<open>AList.update\<close>. \<open>get\<close> is
  \<^const>\<open>map_of\<close>, \<open>size\<close> is \<^const>\<open>length\<close>.
\<close>

definition has :: "('k \<times> 'v) list \<Rightarrow> 'k \<Rightarrow> bool" where
  "has m k = (map_of m k \<noteq> None)"

definition getOr0 :: "('k \<times> nat) list \<Rightarrow> 'k \<Rightarrow> nat" where
  \<comment> \<open>\<open>m.get(k) || 0\<close>\<close>
  "getOr0 m k = (case map_of m k of None \<Rightarrow> 0 | Some n \<Rightarrow> n)"

section \<open>The merge pattern\<close>

text \<open>
  \<open>escapeRegex\<close> puts a backslash before each of the characters
  \<^verbatim>\<open>. * + ? ^ $ { } ( ) | [ ]\<close> and before the backslash itself. The pattern of a merge
  is the word boundary (backslash, \<open>b\<close>), the escaped left symbol, a space, the escaped right
  symbol, and the word boundary again.
\<close>

definition BSL :: char where
  "BSL = CHR 0x5C"

definition regexSpecial :: "char \<Rightarrow> bool" where
  "regexSpecial c = (c \<in> set ''.*+?^${}()|[]'' \<or> c = BSL)"

definition escapeRegex :: "string \<Rightarrow> string" where
  "escapeRegex str = concat (map (\<lambda>c. if regexSpecial c then [BSL, c] else [c]) str)"

definition mergePatternSource :: "string \<Rightarrow> string \<Rightarrow> string" where
  "mergePatternSource first second =
     [BSL, CHR ''b''] @ escapeRegex first @ [SP] @ escapeRegex second @ [BSL, CHR ''b'']"

text \<open>
  The part of the pattern language these sources use: backslash and \<open>b\<close> is the word
  boundary, a backslash before any other character stands for that character, and every
  other character stands for itself (\<open>escapeRegex\<close> leaves no syntax character without its
  backslash; see \<open>compileRegex_mergePattern\<close>).
\<close>

datatype atom = Boundary | Lit char

fun compileRegex :: "string \<Rightarrow> atom list" where
  "compileRegex [] = []"
| "compileRegex [c] = [Lit c]"
| "compileRegex (c # d # rest) =
     (if c = BSL then (if d = CHR ''b'' then Boundary else Lit d) # compileRegex rest
      else Lit c # compileRegex (d # rest))"

definition wordBefore :: "string \<Rightarrow> bool" where
  "wordBefore pre = (pre \<noteq> [] \<and> isWordChar (last pre))"

definition wordAfter :: "string \<Rightarrow> bool" where
  "wordAfter rest = (rest \<noteq> [] \<and> isWordChar (hd rest))"

definition atBoundary :: "string \<Rightarrow> string \<Rightarrow> bool" where
  \<comment> \<open>the word boundary between the text before and the text after the position\<close>
  "atBoundary pre rest = (wordBefore pre \<noteq> wordAfter rest)"

text \<open>
  Matching a sequence of atoms at a position, given the text before it and the text from
  it on: the number of characters matched, or \<open>None\<close>.
\<close>

fun matchAtoms :: "atom list \<Rightarrow> string \<Rightarrow> string \<Rightarrow> nat option" where
  "matchAtoms [] pre rest = Some 0"
| "matchAtoms (Boundary # as) pre rest =
     (if atBoundary pre rest then matchAtoms as pre rest else None)"
| "matchAtoms (Lit c # as) pre [] = None"
| "matchAtoms (Lit c # as) pre (d # rest) =
     (if c = d then map_option Suc (matchAtoms as (pre @ [d]) rest) else None)"

text \<open>
  The replacement text of \<open>String.prototype.replace\<close> for a pattern without groups:
  \<open>$$\<close> is a dollar sign, \<open>$&\<close> the match, \<open>$`\<close> the text before the match, \<open>$'\<close> the text
  after it; any other character, a lone dollar sign too, stands for itself.
\<close>

fun getSubstitution :: "string \<Rightarrow> string \<Rightarrow> string \<Rightarrow> string \<Rightarrow> string" where
  "getSubstitution matched pre post [] = []"
| "getSubstitution matched pre post [c] = [c]"
| "getSubstitution matched pre post (c # d # rest) =
     (if c = CHR ''$'' \<and> d = CHR ''$'' then CHR ''$'' # getSubstitution matched pre post rest
      else if c = CHR ''$'' \<and> d = CHR ''&'' then matched @ getSubstitution matched pre post rest
      else if c = CHR ''$'' \<and> d = CHR 0x60 then pre @ getSubstitution matched pre post rest
      else if c = CHR ''$'' \<and> d = CHR 0x27 then post @ getSubstitution matched pre post rest
      else c # getSubstitution matched pre post (d # rest))"

text \<open>
  \<open>str.replace(pattern, template)\<close> with the \<open>g\<close> flag: scan from the left; at the leftmost
  match write the substitution and go on after the match (one character further when the
  match is empty); copy everything else.
\<close>

function replaceScan :: "atom list \<Rightarrow> string \<Rightarrow> string \<Rightarrow> string \<Rightarrow> string" where
  "replaceScan pat template pre rest =
     (case matchAtoms pat pre rest of
        Some n \<Rightarrow>
          getSubstitution (take n rest) pre (drop n rest) template @
            (if n = 0
             then (case rest of [] \<Rightarrow> [] | c # cs \<Rightarrow> c # replaceScan pat template (pre @ [c]) cs)
             else replaceScan pat template (pre @ take n rest) (drop n rest))
      | None \<Rightarrow> (case rest of [] \<Rightarrow> [] | c # cs \<Rightarrow> c # replaceScan pat template (pre @ [c]) cs))"
  by pat_completeness auto
termination
proof -
  have le: "n \<le> length rest" if "matchAtoms as pre rest = Some n" for as pre rest n
    using that
    by (induction as pre rest arbitrary: n rule: matchAtoms.induct) (auto split: if_splits)
  show ?thesis
    by (relation "measure (\<lambda>(pat, template, pre, rest). length rest)") (auto dest: le)
qed

declare replaceScan.simps [simp del]

definition replaceAll :: "string \<Rightarrow> string \<Rightarrow> string \<Rightarrow> string" where
  \<comment> \<open>\<open>str.replace(new RegExp(source, 'g'), template)\<close>\<close>
  "replaceAll source template str = replaceScan (compileRegex source) template [] str"

section \<open>The tokenizer\<close>

record tokenizerConfig =
  vocabSize :: nat
  specialTokens :: "string list"
  unknownToken :: string
  padToken :: string
  minFreq :: "nat option"
  maxMerges :: "nat option"

text \<open>
  Of the training statistics the counters are modelled; the elapsed times (read from the
  clock) and the floating-point compression ratio are not.
\<close>

record trainingStatistics =
  vocabularySize :: nat
  mergeOperations :: nat
  uniqueWords :: nat
  totalWords :: nat

record bpe =
  vocabulary :: "(string \<times> nat) list"
  reverseVocabulary :: "(nat \<times> string) list"
  merges :: "(string \<times> string) list"
  config :: tokenizerConfig
  trainingStats :: "trainingStatistics option"

datatype error =
    InvalidInput  \<comment> \<open>\<open>Error('Training text cannot be empty')\<close>\<close>
  | NotTrained    \<comment> \<open>\<open>Error('Tokenizer not trained. Call train() first.')\<close>\<close>

fun errorString :: "error \<Rightarrow> string" where
  "errorString InvalidInput = ''Error: Training text cannot be empty''"
| "errorString NotTrained = ''Error: Tokenizer not trained. Call train() first.''"

definition defaultConfig :: tokenizerConfig where
  "defaultConfig =
     \<lparr>vocabSize = 1000, specialTokens = [''<pad>'', ''<unk>'', ''<s>'', ''</s>''],
      unknownToken = ''<unk>'', padToken = ''<pad>'', minFreq = Some 2, maxMerges = Some 500\<rparr>"

definition newTokenizer :: "tokenizerConfig \<Rightarrow> bpe" where
  "newTokenizer cfg =
     \<lparr>vocabulary = [], reverseVocabulary = [], merges = [], config = cfg, trainingStats = None\<rparr>"

definition minFreqOf :: "tokenizerConfig \<Rightarrow> nat" where
  \<comment> \<open>\<open>this.config.minFreq || 2\<close>\<close>
  "minFreqOf cfg = (case minFreq cfg of None \<Rightarrow> 2 | Some n \<Rightarrow> if n = 0 then 2 else n)"

definition maxMergesOf :: "tokenizerConfig \<Rightarrow> nat" where
  \<comment> \<open>\<open>this.config.maxMerges || 500\<close>\<close>
  "maxMergesOf cfg = (case maxMerges cfg of None \<Rightarrow> 500 | Some n \<Rightarrow> if n = 0 then 500 else n)"

subsection \<open>Pair counting\<close>

definition pairKey :: "string \<Rightarrow> string \<Rightarrow> string" where
  "pairKey a b = a @ [SP] @ b"

fun getPairsLoop :: "string list \<Rightarrow> (string \<times> nat) list \<Rightarrow> (string \<times> nat) list" where
  "getPairsLoop (a # b # rest) pairs =
     getPairsLoop (b # rest) (AList.update (pairKey a b) (getOr0 pairs (pairKey a b) + 1) pairs)"
| "getPairsLoop word pairs = pairs"

definition getPairs :: "string list \<Rightarrow> (string \<times> nat) list" where
  "getPairs word = getPairsLoop word []"

definition addPairs :: "nat \<Rightarrow> (string \<times> nat) list \<Rightarrow> (string \<times> nat) list \<Rightarrow> (string \<times> nat) list" where
  "addPairs freq pairs pairCounts =
     fold (\<lambda>(pair, pairFreq) pc. AList.update pair (getOr0 pc pair + freq * pairFreq) pc)
       pairs pairCounts"

definition countPairs :: "(string \<times> nat) list \<Rightarrow> (string \<times> nat) list" where
  "countPairs words =
     fold (\<lambda>(word, freq) pc. addPairs freq (getPairs (splitSpace word)) pc) words []"

subsection \<open>Applying a merge\<close>

definition mergeWord :: "string \<times> string \<Rightarrow> string \<Rightarrow> string" where
  \<comment> \<open>\<open>word.replace(pattern, `${first}${second}`)\<close>\<close>
  "mergeWord merge word =
     (case merge of (first, second) \<Rightarrow>
        replaceAll (mergePatternSource first second) (first @ second) word)"

definition applyMerge :: "(string \<times> nat) list \<Rightarrow> string \<times> string \<Rightarrow> (string \<times> nat) list" where
  "applyMerge words merge =
     fold (\<lambda>(word, freq) newWords. AList.update (mergeWord merge word) freq newWords) words []"

subsection \<open>Training\<close>

type_synonym vocab = "(string \<times> nat) list \<times> (nat \<times> string) list \<times> nat"

definition setToken :: "string \<Rightarrow> vocab \<Rightarrow> vocab" where
  \<comment> \<open>\<open>vocabulary.set(token, tokenId); reverseVocabulary.set(tokenId, token); tokenId++\<close>\<close>
  "setToken token v =
     (case v of (voc, rvoc, tokenId) \<Rightarrow>
        (AList.update token tokenId voc, AList.update tokenId token rvoc, tokenId + 1))"

definition addToken :: "string \<Rightarrow> vocab \<Rightarrow> vocab" where
  \<comment> \<open>the same under \<open>if (!this.vocabulary.has(token))\<close>\<close>
  "addToken token v = (if has (fst v) token then v else setToken token v)"

definition processWord :: "string \<Rightarrow> string" where
  \<comment> \<open>\<open>word.split('').join(' ') + ' </w>'\<close>\<close>
  "processWord word = joinWith [SP] (splitChars word) @ [SP] @ EOW"

definition wordListOf :: "string \<Rightarrow> string list" where
  "wordListOf text =
     filter (\<lambda>w. length w > 0)
       (splitWhiteSpace (trim (collapseWhiteSpace (toLowerCase text))))"

definition wordTable :: "string list \<Rightarrow> (string \<times> nat) list" where
  "wordTable wordList =
     fold (\<lambda>word words. AList.update (processWord word) (getOr0 words (processWord word) + 1) words)
       wordList []"

definition setAdd :: "'a \<Rightarrow> 'a list \<Rightarrow> 'a list" where
  \<comment> \<open>\<open>Set.add\<close>, in insertion order\<close>
  "setAdd x xs = (if x \<in> set xs then xs else xs @ [x])"

definition allCharsOf :: "(string \<times> nat) list \<Rightarrow> string list" where
  "allCharsOf words =
     fold (\<lambda>word allChars.
             fold (\<lambda>char acc. if char \<noteq> EOW \<and> length char > 0 then setAdd char acc else acc)
               (splitSpace word) allChars)
       (map fst words) []"

text \<open>
  \<open>pair.split(' ') as [string, string]\<close>. A key built by \<open>getPairs\<close> from pieces of
  \<open>split(' ')\<close> has exactly one space, so the split has exactly two pieces (lemma
  \<open>splitSpace_pairKey\<close>) and only the first equation is ever used.
\<close>

fun asPair :: "string list \<Rightarrow> string \<times> string" where
  "asPair (a # b # rest) = (a, b)"
| "asPair [a] = (a, [])"
| "asPair [] = ([], [])"

definition selectBest :: "nat \<Rightarrow> (string \<times> nat) list \<Rightarrow> nat \<times> (string \<times> string) option" where
  \<comment> \<open>the selection loop, from \<open>maxCount = 0\<close> and \<open>bestPair = null\<close>\<close>
  "selectBest minFrequency pairCounts =
     fold (\<lambda>(pair, count) (maxCount, bestPair).
             if count > maxCount \<and> count \<ge> minFrequency
             then (count, Some (asPair (splitSpace pair)))
             else (maxCount, bestPair))
       pairCounts (0, None)"

function trainLoop ::
  "tokenizerConfig \<Rightarrow> vocab \<Rightarrow> (string \<times> string) list \<Rightarrow> (string \<times> nat) list \<Rightarrow> nat
     \<Rightarrow> vocab \<times> (string \<times> string) list" where
  "trainLoop cfg v mrg currentWords mergeCount =
     (if length (fst v) < vocabSize cfg \<and> mergeCount < maxMergesOf cfg then
        (let pairCounts = countPairs currentWords in
         if length pairCounts = 0 then (v, mrg)
         else
           (case selectBest (minFreqOf cfg) pairCounts of
              (maxCount, None) \<Rightarrow> (v, mrg)
            | (maxCount, Some bestPair) \<Rightarrow>
                if maxCount < minFreqOf cfg then (v, mrg)
                else trainLoop cfg (addToken (fst bestPair @ snd bestPair) v) (mrg @ [bestPair])
                       (applyMerge currentWords bestPair) (mergeCount + 1)))
      else (v, mrg))"
  by pat_completeness auto
termination
  by (relation "measure (\<lambda>(cfg, v, mrg, currentWords, mergeCount). maxMergesOf cfg - mergeCount)")
     auto

declare trainLoop.simps [simp del]

definition seedVocabulary :: "tokenizerConfig \<Rightarrow> (string \<times> nat) list \<Rightarrow> vocab" where
  \<comment> \<open>special tokens, then the sorted characters, then the end-of-word marker\<close>
  "seedVocabulary cfg words =
     addToken EOW
       (fold addToken (sort (allCharsOf words))
          (fold setToken (specialTokens cfg) ([], [], 0)))"

definition resetState :: "bpe \<Rightarrow> bpe" where
  "resetState st = st\<lparr>vocabulary := [], reverseVocabulary := [], merges := []\<rparr>"

definition train :: "bpe \<Rightarrow> string \<Rightarrow> (error + unit) \<times> bpe" where
  "train st text =
     (if text = [] \<or> length (trim text) = 0 then (Inl InvalidInput, resetState st)
      else
        (let wordList = wordListOf text;
             words = wordTable wordList;
             (v, mrg) = trainLoop (config st) (seedVocabulary (config st) words) [] words 0
         in (Inr (),
             st\<lparr>vocabulary := fst v, reverseVocabulary := fst (snd v), merges := mrg,
                trainingStats := Some \<lparr>vocabularySize = length (fst v),
                  mergeOperations = length mrg, uniqueWords = length words,
                  totalWords = length wordList\<rparr>\<rparr>)))"

subsection \<open>Encoding and decoding\<close>

definition tokenizeWord :: "bpe \<Rightarrow> string \<Rightarrow> nat list" where
  "tokenizeWord st word =
     (let wordTokens = fold mergeWord (merges st) (processWord word);
          wordParts = filter (\<lambda>part. length part > 0) (splitSpace wordTokens)
      in concat (map (\<lambda>part.
           (case map_of (vocabulary st) part of
              Some tokenId \<Rightarrow> [tokenId]
            | None \<Rightarrow>
                (case map_of (vocabulary st) (unknownToken (config st)) of
                   Some unkId \<Rightarrow> [unkId]
                 | None \<Rightarrow> []))) wordParts))"

definition tokenize :: "bpe \<Rightarrow> string \<Rightarrow> error + nat list" where
  "tokenize st text =
     (if length (vocabulary st) = 0 then Inl NotTrained
      else if text = [] then Inr []
      else Inr (concat (map (tokenizeWord st)
             (filter (\<lambda>w. length w > 0) (splitWhiteSpace (toLowerCase text))))))"

text \<open>
  The decoding loop with its two variables, \<open>words\<close> and \<open>currentWord\<close>. The warning written
  to the console for an unknown id is not modelled.
\<close>

fun detokenizeLoop :: "bpe \<Rightarrow> nat list \<Rightarrow> string list \<Rightarrow> string \<Rightarrow> string list \<times> string" where
  "detokenizeLoop st [] words currentWord = (words, currentWord)"
| "detokenizeLoop st (tokenId # rest) words currentWord =
     (case map_of (reverseVocabulary st) tokenId of
        None \<Rightarrow> detokenizeLoop st rest words currentWord
      | Some token \<Rightarrow>
          if token = [] then detokenizeLoop st rest words currentWord
          else if token = EOW then
            (if currentWord \<noteq> [] then detokenizeLoop st rest (words @ [currentWord]) []
             else detokenizeLoop st rest words currentWord)
          else if token \<notin> set (specialTokens (config st)) then
            detokenizeLoop st rest words (currentWord @ token)
          else detokenizeLoop st rest words currentWord)"

definition detokenize :: "bpe \<Rightarrow> nat list \<Rightarrow> string" where
  "detokenize st tokens =
     (if length tokens = 0 then []
      else
        (case detokenizeLoop st tokens [] [] of
           (words, currentWord) \<Rightarrow>
             joinWith [SP] (if currentWord \<noteq> [] then words @ [currentWord] else words)))"

subsection \<open>Validation and benchmark\<close>

record validationResult =
  isValid :: bool
  originalText :: string
  reconstructedText :: string
  tokensMatch :: bool
  errors :: "string list"

definition validateRoundTrip :: "bpe \<Rightarrow> string \<Rightarrow> validationResult" where
  "validateRoundTrip st text =
     (case tokenize st text of
        Inr tokens \<Rightarrow>
          (let reconstructed = detokenize st tokens;
               valid = (text = reconstructed)
           in \<lparr>isValid = valid, originalText = text, reconstructedText = reconstructed,
               tokensMatch = list_all (\<lambda>tokenId. has (reverseVocabulary st) tokenId) tokens,
               errors = (if valid then [] else [''Round-trip validation failed''])\<rparr>)
      | Inl e \<Rightarrow>
          \<lparr>isValid = False, originalText = text, reconstructedText = [],
           tokensMatch = False, errors = [''Validation error: '' @ errorString e]\<rparr>)"

text \<open>
  Of the benchmark result the text count, the accuracy and the error list are modelled;
  the timing averages and the floating-point compression ratio are not. The accuracy
  \<open>(successfulRoundTrips / texts.length) * 100\<close> is the exact quotient here (the double of
  the source equals it whenever all texts or none succeed); \<open>None\<close> is the NaN of an empty
  batch.
\<close>

record benchmarkResult =
  totalTexts :: nat
  roundTripAccuracy :: "rat option"
  benchmarkErrors :: "string list"

definition benchmarkText :: "string \<Rightarrow> bpe \<times> nat \<times> string list \<Rightarrow> bpe \<times> nat \<times> string list" where
  \<comment> \<open>one round of the loop: the tokenizer, \<open>successfulRoundTrips\<close> and \<open>results.errors\<close>\<close>
  "benchmarkText text acc =
     (case acc of (st, successfulRoundTrips, errs) \<Rightarrow>
        (case train st text of
           (Inl e, st') \<Rightarrow>
             (st', successfulRoundTrips, errs @ [''Error processing text: '' @ errorString e])
         | (Inr u, st') \<Rightarrow>
             (case tokenize st' text of
                Inl e \<Rightarrow>
                  (st', successfulRoundTrips, errs @ [''Error processing text: '' @ errorString e])
              | Inr tokens \<Rightarrow>
                  if isValid (validateRoundTrip st' text)
                  then (st', successfulRoundTrips + 1, errs)
                  else (st', successfulRoundTrips,
                        errs @ [''Round-trip failed for text: '' @ take 50 text @ ''...'']))))"

definition benchmark :: "bpe \<Rightarrow> string list \<Rightarrow> benchmarkResult \<times> bpe" where
  "benchmark st texts =
     (case fold benchmarkText texts (st, 0, []) of
        (st', successfulRoundTrips, errs) \<Rightarrow>
          (\<lparr>totalTexts = length texts,
            roundTripAccuracy =
              (if length texts = 0 then None
               else Some (of_nat successfulRoundTrips / of_nat (length texts) * 100)),
            benchmarkErrors = errs\<rparr>, st'))"

subsection \<open>The decoder as the specification words it\<close>

text \<open>
  The specification's decoder: look each id up; an id without a symbol is skipped; the
  end-of-word marker flushes the buffer (an empty buffer adds no word); a special token
  adds nothing; any other symbol is appended to the buffer; after the last id the buffer is
  flushed; the words are joined with one space.
\<close>

definition flushSpec :: "string list \<times> string \<Rightarrow> string list \<times> string" where
  "flushSpec acc = (case acc of (words, buffer) \<Rightarrow>
     (if buffer \<noteq> [] then words @ [buffer] else words, []))"

definition stepSpec :: "bpe \<Rightarrow> string list \<times> string \<Rightarrow> nat \<Rightarrow> string list \<times> string" where
  "stepSpec st acc tokenId =
     (case map_of (reverseVocabulary st) tokenId of
        None \<Rightarrow> acc
      | Some symbol \<Rightarrow>
          if symbol = EOW then flushSpec acc
          else if symbol \<in> set (specialTokens (config st)) then acc
          else (fst acc, snd acc @ symbol))"

definition detokenizeSpec :: "bpe \<Rightarrow> nat list \<Rightarrow> string" where
  "detokenizeSpec st ids =
     (if ids = [] then []
      else joinWith [SP] (fst (flushSpec (foldl (stepSpec st) ([], []) ids))))"

subsection \<open>The merge applier as the specification words it\<close>

text \<open>
  The specification's merge applier works on the symbol sequence: from the left, each
  occurrence of the left symbol followed by the right symbol is replaced by their
  concatenation, and the scan goes on after it.
\<close>

fun mergeSymbols :: "string \<Rightarrow> string \<Rightarrow> string list \<Rightarrow> string list" where
  "mergeSymbols left right (a # b # rest) =
     (if a = left \<and> b = right then (left @ right) # mergeSymbols left right rest
      else a # mergeSymbols left right (b # rest))"
| "mergeSymbols left right syms = syms"

definition applyMergeSpec ::
  "(string \<times> nat) list \<Rightarrow> string \<times> string \<Rightarrow> (string \<times> nat) list" where
  "applyMergeSpec words merge =
     (case merge of (left, right) \<Rightarrow>
        fold (\<lambda>(word, freq) newWords.
                AList.update (joinWith [SP] (mergeSymbols left right (splitSpace word))) freq
                  newWords)
          words [])"

subsection \<open>Pair selection as the specification words it\<close>

text \<open>
  The occurrences of a pair in a symbol sequence (overlapping ones count), the aggregated
  weighted count of a pair over the table, and the entry of the pair counts with the
  highest count, the first such entry in iteration order when several tie.
\<close>

fun occurrences :: "string \<Rightarrow> string \<Rightarrow> string list \<Rightarrow> nat" where
  "occurrences a b (x # y # rest) = (if x = a \<and> y = b then 1 else 0) + occurrences a b (y # rest)"
| "occurrences a b syms = 0"

definition weightedCount :: "(string \<times> nat) list \<Rightarrow> string \<Rightarrow> string \<Rightarrow> nat" where
  "weightedCount words a b =
     sum_list (map (\<lambda>(word, freq). freq * occurrences a b (splitSpace word)) words)"

definition firstHighest :: "(string \<times> nat) list \<Rightarrow> (string \<times> nat) option" where
  "firstHighest pairCounts =
     find (\<lambda>(pair, count). list_all (\<lambda>(pair', count'). count' \<le> count) pairCounts) pairCounts"

definition isPairKey :: "string \<Rightarrow> bool" where
  "isPairKey key = (\<exists>a b. key = pairKey a b \<and> SP \<notin> set a \<and> SP \<notin> set b)"

subsection \<open>Export and import\<close>

text \<open>
  An id becomes a property key by its decimal numeral (ids are far below \<open>10^21\<close>, where
  the numeral of a number changes its form). \<open>canonicalNat\<close> recognises these numerals.
  \<open>numberOf\<close> is \<open>Number(k)\<close> for a key written in decimal digits: leading zeros and
  white space around the digits are allowed, and the empty key is 0. It is \<open>None\<close> for
  every other key (a sign, a fraction, an exponent, a hexadecimal numeral, text), whose
  number is outside the model.
\<close>

definition digitChar :: "nat \<Rightarrow> char" where
  "digitChar d = char_of (48 + d)"

definition digitValue :: "char \<Rightarrow> nat option" where
  "digitValue c = (let n = of_char c :: nat in if 48 \<le> n \<and> n \<le> 57 then Some (n - 48) else None)"

function decimal :: "nat \<Rightarrow> string" where
  "decimal n = (if n < 10 then [digitChar n] else decimal (n div 10) @ [digitChar (n mod 10)])"
  by pat_completeness auto
termination
  by (relation "measure id") auto

declare decimal.simps [simp del]

fun parseDigits :: "nat \<Rightarrow> string \<Rightarrow> nat option" where
  "parseDigits acc [] = Some acc"
| "parseDigits acc (c # cs) =
     (case digitValue c of None \<Rightarrow> None | Some d \<Rightarrow> parseDigits (10 * acc + d) cs)"

definition canonicalNat :: "string \<Rightarrow> nat option" where
  "canonicalNat k =
     (if k = [] \<or> (hd k = CHR ''0'' \<and> length k > 1) then None else parseDigits 0 k)"

definition numberOf :: "string \<Rightarrow> nat option" where
  "numberOf k = (if trim k = [] then Some 0 else parseDigits 0 (trim k))"

text \<open>
  A plain object keeps its properties in creation order, except that its array-index keys
  (decimal numerals below \<open>2^32 - 1\<close>) come first, ascending. \<open>Object.fromEntries\<close>
  creates the properties in the order of the entries; a repeated key keeps its first place
  and takes the later value. \<open>Object.entries\<close> lists them in property order.
\<close>

definition isArrayIndex :: "string \<Rightarrow> bool" where
  "isArrayIndex k = (case canonicalNat k of None \<Rightarrow> False | Some n \<Rightarrow> n < 4294967295)"

definition indexOf :: "string \<Rightarrow> nat" where
  "indexOf k = (case canonicalNat k of None \<Rightarrow> 0 | Some n \<Rightarrow> n)"

definition objFromEntries :: "(string \<times> 'v) list \<Rightarrow> (string \<times> 'v) list" where
  "objFromEntries entries = fold (\<lambda>(k, v) obj. AList.update k v obj) entries []"

definition objEntries :: "(string \<times> 'v) list \<Rightarrow> (string \<times> 'v) list" where
  "objEntries obj =
     sort_key (\<lambda>(k, v). indexOf k) (filter (\<lambda>(k, v). isArrayIndex k) obj) @
     filter (\<lambda>(k, v). \<not> isArrayIndex k) obj"

text \<open>\<open>new Map(entries)\<close>.\<close>

definition mapFromEntries :: "('k \<times> 'v) list \<Rightarrow> ('k \<times> 'v) list" where
  "mapFromEntries entries = fold (\<lambda>(k, v) m. AList.update k v m) entries []"

record snapshot =
  snapVocabulary :: "(string \<times> nat) list"
  snapReverseVocabulary :: "(string \<times> string) list"
  snapMerges :: "(string \<times> string) list"
  snapConfig :: tokenizerConfig
  snapStats :: "trainingStatistics option"

definition keyToDecimal :: "nat \<times> string \<Rightarrow> string \<times> string" where
  "keyToDecimal e = (decimal (fst e), snd e)"

definition exportVocabulary :: "bpe \<Rightarrow> snapshot" where
  "exportVocabulary st =
     \<lparr>snapVocabulary = objFromEntries (vocabulary st),
      snapReverseVocabulary =
        objFromEntries (map keyToDecimal (reverseVocabulary st)),
      snapMerges = merges st, snapConfig = config st, snapStats = trainingStats st\<rparr>"

text \<open>
  \<open>{ ...this.config, ...data.config }\<close>: a configuration carries all its six keys (the
  constructor writes them), so every field of the incoming configuration overwrites the
  present one, a field without a value (\<open>None\<close>) too.
\<close>

definition mergeConfig :: "tokenizerConfig \<Rightarrow> tokenizerConfig \<Rightarrow> tokenizerConfig" where
  "mergeConfig current incoming =
     current\<lparr>vocabSize := vocabSize incoming, specialTokens := specialTokens incoming,
             unknownToken := unknownToken incoming, padToken := padToken incoming,
             minFreq := minFreq incoming, maxMerges := maxMerges incoming\<rparr>"

text \<open>
  \<open>importVocabulary\<close> replaces vocabulary, inverse vocabulary, merge list and statistics by
  those of the snapshot. It gives \<open>None\<close> on a snapshot with an id key whose number is
  outside the model; \<open>exportVocabulary\<close> never makes one.
\<close>

definition numberKeys :: "(string \<times> 'v) list \<Rightarrow> (nat \<times> 'v) list option" where
  "numberKeys entries = those (map (\<lambda>(k, v). map_option (\<lambda>n. (n, v)) (numberOf k)) entries)"

definition importVocabulary :: "bpe \<Rightarrow> snapshot \<Rightarrow> bpe option" where
  "importVocabulary st data =
     (case numberKeys (objEntries (snapReverseVocabulary data)) of
        None \<Rightarrow> None
      | Some reverseEntries \<Rightarrow>
          Some (st\<lparr>vocabulary := mapFromEntries (objEntries (snapVocabulary data)),
                  reverseVocabulary := mapFromEntries reverseEntries,
                  merges := snapMerges data,
                  config := mergeConfig (config st) (snapConfig data),
                  trainingStats := snapStats data\<rparr>))"

text \<open>The keys of a \<open>Map\<close> are distinct; for the two vocabulary maps:\<close>

definition distinctKeys :: "vocab \<Rightarrow> bool" where
  "distinctKeys v = (distinct (map fst (fst v)) \<and> distinct (map fst (fst (snd v))))"

subsection \<open>Upper case and irregular white space\<close>

text \<open>
  A character that lower-casing leaves alone and that is no white space; a text with a
  character that lower-casing changes; a text with a white-space character other than the
  space, with a space at either end, or with two spaces in a row.
\<close>

definition goodChar :: "char \<Rightarrow> bool" where
  "goodChar c = (toLowerChar c = c \<and> \<not> isWhiteSpace c)"

definition hasUpperCase :: "string \<Rightarrow> bool" where
  "hasUpperCase s = (\<exists>c\<in>set s. toLowerChar c \<noteq> c)"

fun adjacentSpaces :: "string \<Rightarrow> bool" where
  "adjacentSpaces (a # b # rest) = ((a = SP \<and> b = SP) \<or> adjacentSpaces (b # rest))"
| "adjacentSpaces s = False"

definition irregularWhiteSpace :: "string \<Rightarrow> bool" where
  "irregularWhiteSpace s =
     ((\<exists>c\<in>set s. isWhiteSpace c \<and> c \<noteq> SP) \<or>
      (s \<noteq> [] \<and> hd s = SP) \<or> (s \<noteq> [] \<and> last s = SP) \<or> adjacentSpaces s)"

subsection \<open>Tokens and words free of upper case and white space\<close>

text \<open>
  The tokens of a vocabulary are the values of its inverse map. A token is good when it is
  a special token or has good characters only; words are good when each is non-empty and
  has good characters only; a table is good when its keys have good characters and spaces
  only.
\<close>

definition tokensOf :: "vocab \<Rightarrow> string set" where
  "tokensOf v = snd ` set (fst (snd v))"

definition goodToken :: "tokenizerConfig \<Rightarrow> string \<Rightarrow> bool" where
  "goodToken cfg t = (t \<in> set (specialTokens cfg) \<or> (\<forall>c\<in>set t. goodChar c))"

definition goodTokens :: "tokenizerConfig \<Rightarrow> vocab \<Rightarrow> bool" where
  "goodTokens cfg v = (\<forall>t\<in>tokensOf v. goodToken cfg t)"

definition goodWords :: "string list \<Rightarrow> bool" where
  "goodWords ws = (\<forall>w\<in>set ws. w \<noteq> [] \<and> (\<forall>c\<in>set w. goodChar c))"

definition goodTable :: "(string \<times> nat) list \<Rightarrow> bool" where
  "goodTable W = (\<forall>k\<in>fst ` set W. \<forall>c\<in>set k. goodChar c \<or> c = SP)"

subsection \<open>The tables of the scenario \<open>b b b\<close>\<close>

text \<open>The vocabulary and its inverse after training the default tokenizer on \<open>b b b\<close>.\<close>

definition vocabularyB :: "(string \<times> nat) list" where
  "vocabularyB =
     [(''<pad>'', 0), (''<unk>'', 1), (''<s>'', 2), (''</s>'', 3), (''b'', 4), (''</w>'', 5),
      (''b</w>'', 6)]"

definition reverseVocabularyB :: "(nat \<times> string) list" where
  "reverseVocabularyB =
     [(0, ''<pad>''), (1, ''<unk>''), (2, ''<s>''), (3, ''</s>''), (4, ''b''), (5, ''</w>''),
      (6, ''b</w>'')]"

section \<open>Properties\<close>

subsection \<open>Training on blank text\<close>

lemma all_dropWhile_iff: "(\<forall>x\<in>set (dropWhile P xs). P x) \<longleftrightarrow> (\<forall>x\<in>set xs. P x)"
  by (induction xs) auto

lemma trim_empty_iff: "trim text = [] \<longleftrightarrow> (\<forall>c\<in>set text. isWhiteSpace c)"
  by (simp add: trim_def all_dropWhile_iff)

text \<open>
  Claim C6. Training on a text that is empty or consists of white space only fails with
  InvalidInput, and the state it leaves has an empty vocabulary, an empty inverse
  vocabulary and an empty merge list; configuration and statistics are as before.
\<close>

theorem train_rejects_blank_text:
  assumes "\<forall>c\<in>set text. isWhiteSpace c"
  shows "train st text =
    (Inl InvalidInput, st\<lparr>vocabulary := [], reverseVocabulary := [], merges := []\<rparr>)"
  using assms by (simp add: train_def resetState_def trim_empty_iff)

theorem train_rejects_blank_text_witness:
  "list_all isWhiteSpace '' '' \<and>
   fst (train (newTokenizer defaultConfig) '' '') = Inl InvalidInput \<and>
   vocabulary (snd (train (newTokenizer defaultConfig) '' '')) = [] \<and>
   merges (snd (train (newTokenizer defaultConfig) '' '')) = []"
proof -
  have h: "\<forall>c\<in>set '' ''. isWhiteSpace c"
    by (simp add: isWhiteSpace_def)
  show ?thesis
    using h train_rejects_blank_text [OF h, of "newTokenizer defaultConfig"]
    by (simp add: list_all_iff)
qed

subsection \<open>Encoding before training\<close>

text \<open>
  Claim C7. \<open>tokenize\<close> fails exactly when the vocabulary is empty, whatever the text (the
  empty text included), and the failure is NotTrained; with a vocabulary that is not
  empty, the empty text gives the empty id sequence.
\<close>

theorem tokenize_not_trained_iff:
  "((\<exists>e. tokenize st text = Inl e) \<longleftrightarrow> vocabulary st = []) \<and>
   (vocabulary st = [] \<longrightarrow> tokenize st text = Inl NotTrained) \<and>
   (vocabulary st \<noteq> [] \<longrightarrow> tokenize st [] = Inr [])"
  by (simp add: tokenize_def)

theorem tokenize_not_trained_iff_witness:
  "vocabulary (newTokenizer defaultConfig) = [] \<and>
   tokenize (newTokenizer defaultConfig) [] = Inl NotTrained \<and>
   vocabulary ((newTokenizer defaultConfig)\<lparr>vocabulary := [(''a'', 0)]\<rparr>) \<noteq> [] \<and>
   tokenize ((newTokenizer defaultConfig)\<lparr>vocabulary := [(''a'', 0)]\<rparr>) [] = Inr []"
  using tokenize_not_trained_iff [of "newTokenizer defaultConfig" "[]"]
    tokenize_not_trained_iff [of "(newTokenizer defaultConfig)\<lparr>vocabulary := [(''a'', 0)]\<rparr>" "[]"]
  by (simp add: newTokenizer_def)

subsection \<open>Decoding\<close>

lemma detokenizeLoop_foldl:
  "detokenizeLoop st ids words cur = foldl (stepSpec st) (words, cur) ids"
  by (induction ids arbitrary: words cur)
     (auto simp: stepSpec_def flushSpec_def EOW_def split: option.splits)

text \<open>
  Claim C8. \<open>detokenize\<close> computes what the specification's decoder computes, for every
  state and every id sequence: the empty string on the empty sequence, unknown ids skipped,
  the buffer flushed at the end-of-word marker, special tokens ignored, other symbols
  appended, the last buffer flushed, the words joined with one space. In particular an id
  sequence holding only the id 999999, which the inverse vocabulary does not have, gives
  the empty string.
\<close>

theorem detokenize_refines_spec:
  "detokenize st ids = detokenizeSpec st ids \<and>
   (map_of (reverseVocabulary st) 999999 = None \<longrightarrow> detokenize st [999999] = [])"
  by (auto simp: detokenize_def detokenizeSpec_def detokenizeLoop_foldl flushSpec_def stepSpec_def
      split: prod.splits)

theorem detokenize_refines_spec_witness:
  "map_of (reverseVocabulary ((newTokenizer defaultConfig)\<lparr>reverseVocabulary := [(0, ''a'')]\<rparr>))
     999999 = None \<and>
   detokenize ((newTokenizer defaultConfig)\<lparr>reverseVocabulary := [(0, ''a'')]\<rparr>) [999999] = []"
proof -
  have h: "map_of (reverseVocabulary
      ((newTokenizer defaultConfig)\<lparr>reverseVocabulary := [(0, ''a'')]\<rparr>)) 999999 = None"
    by (simp add: newTokenizer_def)
  from detokenize_refines_spec
    [of "(newTokenizer defaultConfig)\<lparr>reverseVocabulary := [(0, ''a'')]\<rparr>" "[999999]"] h
  show ?thesis by blast
qed

subsection \<open>A merge that the pattern never applies\<close>

lemma addToken_has: "has (fst v) t \<Longrightarrow> addToken t v = v"
  by (simp add: addToken_def)

text \<open>
  When applying the selected pair leaves the table as it is and the merged token is in the
  vocabulary already, every further round selects the same pair again: the loop appends
  the pair until the merge cap is reached.
\<close>

lemma trainLoop_stuck:
  assumes "countPairs W \<noteq> []"
    and "selectBest (minFreqOf cfg) (countPairs W) = (m, Some p)"
    and "\<not> m < minFreqOf cfg"
    and "applyMerge W p = W"
    and "has (fst v) (fst p @ snd p)"
    and "length (fst v) < vocabSize cfg"
  shows "trainLoop cfg v mrg W k = (v, mrg @ replicate (maxMergesOf cfg - k) p)"
proof (induction "maxMergesOf cfg - k" arbitrary: k mrg)
  case 0
  then show ?case by (subst trainLoop.simps) simp
next
  case (Suc n)
  then have k: "k < maxMergesOf cfg" and n: "n = maxMergesOf cfg - (k + 1)"
    by simp_all
  have "trainLoop cfg v mrg W k = trainLoop cfg v (mrg @ [p]) W (k + 1)"
    using assms k by (subst trainLoop.simps) (simp add: addToken_has)
  also have "\<dots> = (v, (mrg @ [p]) @ replicate (maxMergesOf cfg - (k + 1)) p)"
    using Suc.hyps(1) [OF n] .
  also have "(mrg @ [p]) @ replicate (maxMergesOf cfg - (k + 1)) p
      = mrg @ replicate (maxMergesOf cfg - k) p"
  proof -
    have "maxMergesOf cfg - k = Suc (maxMergesOf cfg - (k + 1))"
      using Suc.hyps(2) n by simp
    then have "replicate (maxMergesOf cfg - k) p = p # replicate (maxMergesOf cfg - (k + 1)) p"
      by (simp only: replicate_Suc)
    then show ?thesis by simp
  qed
  finally show ?case .
qed

lemma fold_replicate_fixed: "f p x = x \<Longrightarrow> fold f (replicate n p) x = x"
  by (induction n) auto

subsection \<open>The benchmark scenario\<close>

lemma benchmarkText_a:
  "benchmarkText ''a'' (newTokenizer defaultConfig, 0, []) =
    (\<lparr>vocabulary =
        [(''<pad>'', 0), (''<unk>'', 1), (''<s>'', 2), (''</s>'', 3), (''a'', 4), (''</w>'', 5)],
      reverseVocabulary =
        [(0, ''<pad>''), (1, ''<unk>''), (2, ''<s>''), (3, ''</s>''), (4, ''a''), (5, ''</w>'')],
      merges = [], config = defaultConfig,
      trainingStats = Some \<lparr>vocabularySize = 6, mergeOperations = 0, uniqueWords = 1,
        totalWords = 1\<rparr>\<rparr>, 1, [])"
  by code_simp

text \<open>
  Training on \<open>b b b\<close>: the only pair is \<open>b\<close> with the end-of-word marker, counted three
  times; the pattern never matches it, so the pair is selected in each of the 500 rounds.
\<close>

lemma train_bbb:
  assumes "config st = defaultConfig"
  shows "train st ''b b b'' =
    (Inr (), st\<lparr>vocabulary := vocabularyB, reverseVocabulary := reverseVocabularyB,
       merges := replicate 500 (''b'', ''</w>''),
       trainingStats := Some \<lparr>vocabularySize = 7, mergeOperations = 500, uniqueWords = 1,
         totalWords = 3\<rparr>\<rparr>)"
proof -
  let ?W = "[(''b </w>'', 3::nat)]"
  let ?p = "(''b'', ''</w>'')"
  let ?v = "(vocabularyB, reverseVocabularyB, 7::nat)"
  have wl: "wordListOf ''b b b'' = [''b'', ''b'', ''b'']" by code_simp
  have W: "wordTable [''b'', ''b'', ''b''] = ?W" by code_simp
  have seed: "addToken ''b</w>'' (seedVocabulary defaultConfig ?W) = ?v"
    unfolding vocabularyB_def reverseVocabularyB_def by code_simp
  have seedlen: "length (fst (seedVocabulary defaultConfig ?W)) = 6" by code_simp
  have cp: "countPairs ?W = ?W" by code_simp
  have mf: "minFreqOf defaultConfig = 2" by code_simp
  have mm: "maxMergesOf defaultConfig = 500" by code_simp
  have vs: "vocabSize defaultConfig = 1000" by code_simp
  have sb: "selectBest 2 ?W = (3, Some ?p)" by code_simp
  have am: "applyMerge ?W ?p = ?W" by code_simp
  have tr: "trim ''b b b'' = ''b b b''" by code_simp
  have "replicate 500 ?p = replicate (Suc 499) ?p"
    by simp
  then have r: "?p # replicate 499 ?p = replicate 500 ?p"
    by (simp only: replicate_Suc)
  have stuck: "trainLoop defaultConfig ?v [?p] ?W (Suc 0) = (?v, replicate 500 ?p)"
    using trainLoop_stuck [of ?W defaultConfig 3 ?p ?v "[?p]" "Suc 0"]
    by (simp add: cp mf mm vs sb am has_def vocabularyB_def r)
  have loop: "trainLoop defaultConfig (seedVocabulary defaultConfig ?W) [] ?W 0
      = (?v, replicate 500 ?p)"
    by (subst trainLoop.simps) (simp add: seedlen cp mf mm vs sb am seed stuck)
  have len: "length vocabularyB = 7"
    by (simp add: vocabularyB_def)
  show ?thesis
    by (simp add: train_def tr wl W loop assms len)
qed

lemma tokenize_bbb:
  assumes "vocabulary st = vocabularyB" and "merges st = replicate 500 (''b'', ''</w>'')"
  shows "tokenize st ''b b b'' = Inr [4, 5, 4, 5, 4, 5]"
proof -
  have mw: "mergeWord (''b'', ''</w>'') ''b </w>'' = ''b </w>''" by code_simp
  have pw: "processWord ''b'' = ''b </w>''" by code_simp
  have sp: "splitSpace ''b </w>'' = [''b'', ''</w>'']" by code_simp
  have ws: "splitWhiteSpace (toLowerCase ''b b b'') = [''b'', ''b'', ''b'']" by code_simp
  have fr: "fold mergeWord (merges st) (processWord ''b'') = ''b </w>''"
    unfolding assms(2) pw by (rule fold_replicate_fixed) (rule mw)
  have w: "tokenizeWord st ''b'' = [4, 5]"
    by (simp only: tokenizeWord_def fr sp assms(1) Let_def) (simp add: vocabularyB_def)
  have "vocabulary st \<noteq> []"
    by (simp add: assms(1) vocabularyB_def)
  then show ?thesis
    unfolding tokenize_def ws by (simp add: w)
qed

lemma detokenize_bbb:
  assumes "reverseVocabulary st = reverseVocabularyB" and "config st = defaultConfig"
  shows "detokenize st [4, 5, 4, 5, 4, 5] = ''b b b''"
  by (simp add: detokenize_def assms reverseVocabularyB_def defaultConfig_def EOW_def SP_def)

lemma benchmarkText_bbb:
  assumes "config st = defaultConfig"
  shows "snd (benchmarkText ''b b b'' (st, n, errs)) = (n + 1, errs)"
proof -
  define st' where "st' = st\<lparr>vocabulary := vocabularyB, reverseVocabulary := reverseVocabularyB,
     merges := replicate 500 (''b'', ''</w>''),
     trainingStats := Some \<lparr>vocabularySize = 7, mergeOperations = 500, uniqueWords = 1,
       totalWords = 3\<rparr>\<rparr>"
  have t: "train st ''b b b'' = (Inr (), st')"
    using train_bbb [OF assms] by (simp add: st'_def)
  have f: "vocabulary st' = vocabularyB" "merges st' = replicate 500 (''b'', ''</w>'')"
    "reverseVocabulary st' = reverseVocabularyB" "config st' = defaultConfig"
    by (simp_all add: st'_def assms)
  have v: "isValid (validateRoundTrip st' ''b b b'')"
    unfolding validateRoundTrip_def tokenize_bbb [OF f(1,2)]
    by (simp add: detokenize_bbb [OF f(3,4)] Let_def)
  show ?thesis
    unfolding benchmarkText_def by (simp add: t tokenize_bbb [OF f(1,2)] v)
qed

text \<open>
  Claim C5. On a tokenizer with the default configuration, the benchmark of the two texts
  \<open>a\<close> and \<open>b b b\<close> returns an empty error list and the accuracy 100.
\<close>

theorem benchmark_a_bbb:
  "fst (benchmark (newTokenizer defaultConfig) [''a'', ''b b b'']) =
    \<lparr>totalTexts = 2, roundTripAccuracy = Some 100, benchmarkErrors = []\<rparr>"
proof -
  have "snd (fold benchmarkText [''a'', ''b b b''] (newTokenizer defaultConfig, 0, [])) = (2, [])"
    unfolding fold_simps benchmarkText_a by (simp add: benchmarkText_bbb)
  then obtain st' where
    "fold benchmarkText [''a'', ''b b b''] (newTokenizer defaultConfig, 0, []) = (st', 2, [])"
    by (cases "fold benchmarkText [''a'', ''b b b''] (newTokenizer defaultConfig, 0, [])") simp
  then show ?thesis
    unfolding benchmark_def by simp
qed

subsection \<open>Applying a merge at symbol boundaries\<close>

text \<open>
  Claim C2, evaluated where the code departs from it. The word boundary of the pattern is
  a boundary between a word character and another character, not a boundary between
  symbols. After the right symbol \<open></w>\<close> there is no such boundary, so the pair of \<open>b\<close> and
  the end-of-word marker is never rewritten, where the specification's merge applier gives
  the symbol \<open>b</w>\<close>. And inside the symbol \<open>x-a\<close> there is such a boundary before \<open>a\<close>, so
  the pair of \<open>a\<close> and \<open>b\<close> is rewritten there although the left symbol is \<open>x-a\<close>.
\<close>

theorem applyMerge_misses_symbol_boundaries:
  "applyMerge [(''b </w>'', 3)] (''b'', ''</w>'') = [(''b </w>'', 3)] \<and>
   applyMergeSpec [(''b </w>'', 3)] (''b'', ''</w>'') = [(''b</w>'', 3)] \<and>
   applyMerge [(''x-a b </w>'', 1)] (''a'', ''b'') = [(''x-ab </w>'', 1)] \<and>
   applyMergeSpec [(''x-a b </w>'', 1)] (''a'', ''b'') = [(''x-a b </w>'', 1)]"
  by code_simp

subsection \<open>Sizes after training\<close>

text \<open>
  Claim C3 as stated fails: with \<open>vocabSize = 5\<close> the four special tokens, the two
  characters of \<open>ab\<close> and the end-of-word marker give a vocabulary of seven entries.
  Seeding adds every special token and every character whatever \<open>vocabSize\<close> is.
\<close>

theorem train_exceeds_vocabSize:
  "fst (train (newTokenizer (defaultConfig\<lparr>vocabSize := 5\<rparr>)) ''ab'') = Inr () \<and>
   \<not> length (vocabulary (snd (train (newTokenizer (defaultConfig\<lparr>vocabSize := 5\<rparr>)) ''ab'')))
       \<le> vocabSize (config (newTokenizer (defaultConfig\<lparr>vocabSize := 5\<rparr>)))"
  by code_simp

lemma length_update_le: "length (AList.update k v al) \<le> Suc (length al)"
  by (induction al) auto

lemma length_addToken_le: "length (fst (addToken t v)) \<le> Suc (length (fst v))"
  by (cases v) (simp add: addToken_def setToken_def length_update_le)

lemma trainLoop_bounds:
  "trainLoop cfg v mrg W k = (v', mrg') \<Longrightarrow>
     length (fst v') \<le> max (vocabSize cfg) (length (fst v)) \<and>
     length mrg' \<le> length mrg + (maxMergesOf cfg - k)"
proof (induction cfg v mrg W k rule: trainLoop.induct)
  case (1 cfg v mrg currentWords mergeCount)
  show ?case
  proof (cases "length (fst v) < vocabSize cfg \<and> mergeCount < maxMergesOf cfg")
    case False
    with "1.prems" show ?thesis
      by (subst (asm) trainLoop.simps) auto
  next
    case guard: True
    show ?thesis
    proof (cases "countPairs currentWords = []")
      case True
      with "1.prems" guard show ?thesis
        by (subst (asm) trainLoop.simps) auto
    next
      case ne: False
      obtain maxCount best where sb:
        "selectBest (minFreqOf cfg) (countPairs currentWords) = (maxCount, best)"
        by (cases "selectBest (minFreqOf cfg) (countPairs currentWords)")
      show ?thesis
      proof (cases "best = None \<or> maxCount < minFreqOf cfg")
        case True
        with "1.prems" guard ne sb show ?thesis
          by (subst (asm) trainLoop.simps) (auto split: option.splits)
      next
        case False
        then obtain bp where bp: "best = Some bp" and mc: "\<not> maxCount < minFreqOf cfg"
          by auto
        let ?v = "addToken (fst bp @ snd bp) v"
        have rec: "trainLoop cfg ?v (mrg @ [bp]) (applyMerge currentWords bp) (mergeCount + 1)
            = (v', mrg')"
          using "1.prems" guard ne sb bp mc
          by (subst (asm) trainLoop.simps) simp
        have ih: "length (fst v') \<le> max (vocabSize cfg) (length (fst ?v)) \<and>
            length mrg' \<le> length (mrg @ [bp]) + (maxMergesOf cfg - (mergeCount + 1))"
          using "1.IH" [OF guard refl _ sb [symmetric] bp _ rec] ne mc by simp
        have "length (fst ?v) \<le> vocabSize cfg"
          using guard length_addToken_le [of "fst bp @ snd bp" v] by simp
        with ih guard show ?thesis by auto
      qed
    qed
  qed
qed

text \<open>
  Claim C3, amended. After a successful training the vocabulary has at most as many
  entries as the larger of \<open>vocabSize\<close> and the seeded vocabulary (special tokens,
  characters of the text, end-of-word marker): the merge loop never takes it beyond
  \<open>vocabSize\<close>. With \<open>maxMerges\<close> configured as a positive number, the merge list has at
  most \<open>maxMerges\<close> entries.
\<close>

theorem train_size_bounds:
  assumes "train st text = (Inr (), st')"
  shows "length (vocabulary st') \<le>
      max (vocabSize (config st))
          (length (fst (seedVocabulary (config st) (wordTable (wordListOf text))))) \<and>
    (\<forall>n. maxMerges (config st) = Some n \<longrightarrow> 0 < n \<longrightarrow> length (merges st') \<le> n)"
proof -
  let ?W = "wordTable (wordListOf text)"
  obtain v mrg where loop:
    "trainLoop (config st) (seedVocabulary (config st) ?W) [] ?W 0 = (v, mrg)"
    by (cases "trainLoop (config st) (seedVocabulary (config st) ?W) [] ?W 0")
  from assms loop have "vocabulary st' = fst v" "merges st' = mrg"
    by (auto simp: train_def Let_def split: if_splits)
  with trainLoop_bounds [OF loop] show ?thesis
    by (auto simp: maxMergesOf_def)
qed

text \<open>
  Both bounds are met with equality by \<open>vocabSize = 8\<close>, \<open>maxMerges = 1\<close> and the text
  \<open>ab ab\<close>: seven seeded entries, one merge, eight entries.
\<close>

theorem train_size_bounds_witness:
  "train (newTokenizer (defaultConfig\<lparr>vocabSize := 8, maxMerges := Some 1\<rparr>)) ''ab ab'' =
     (Inr (), snd (train (newTokenizer (defaultConfig\<lparr>vocabSize := 8, maxMerges := Some 1\<rparr>))
        ''ab ab'')) \<and>
   maxMerges (config (newTokenizer (defaultConfig\<lparr>vocabSize := 8, maxMerges := Some 1\<rparr>)))
     = Some 1 \<and>
   length (fst (seedVocabulary
     (config (newTokenizer (defaultConfig\<lparr>vocabSize := 8, maxMerges := Some 1\<rparr>)))
     (wordTable (wordListOf ''ab ab'')))) = 7 \<and>
   length (vocabulary (snd (train
     (newTokenizer (defaultConfig\<lparr>vocabSize := 8, maxMerges := Some 1\<rparr>)) ''ab ab''))) = 8 \<and>
   merges (snd (train
     (newTokenizer (defaultConfig\<lparr>vocabSize := 8, maxMerges := Some 1\<rparr>)) ''ab ab''))
     = [(''a'', ''b'')] \<and>
   length (vocabulary (snd (train
     (newTokenizer (defaultConfig\<lparr>vocabSize := 8, maxMerges := Some 1\<rparr>)) ''ab ab''))) \<le>
     max (vocabSize (config (newTokenizer (defaultConfig\<lparr>vocabSize := 8, maxMerges := Some 1\<rparr>))))
       (length (fst (seedVocabulary
          (config (newTokenizer (defaultConfig\<lparr>vocabSize := 8, maxMerges := Some 1\<rparr>)))
          (wordTable (wordListOf ''ab ab''))))) \<and>
   length (merges (snd (train
     (newTokenizer (defaultConfig\<lparr>vocabSize := 8, maxMerges := Some 1\<rparr>)) ''ab ab''))) \<le> 1"
proof -
  let ?T = "newTokenizer (defaultConfig\<lparr>vocabSize := 8, maxMerges := Some 1\<rparr>)"
  have f: "fst (train ?T ''ab ab'') = Inr ()"
    by code_simp
  then have h: "train ?T ''ab ab'' = (Inr (), snd (train ?T ''ab ab''))"
    by (metis prod.collapse)
  have m: "maxMerges (config ?T) = Some 1"
    by code_simp
  have s: "length (fst (seedVocabulary (config ?T) (wordTable (wordListOf ''ab ab'')))) = 7"
    by code_simp
  have v: "length (vocabulary (snd (train ?T ''ab ab''))) = 8"
    by code_simp
  have g: "merges (snd (train ?T ''ab ab'')) = [(''a'', ''b'')]"
    by code_simp
  from train_size_bounds [OF h] m
  have b: "length (vocabulary (snd (train ?T ''ab ab''))) \<le>
      max (vocabSize (config ?T))
        (length (fst (seedVocabulary (config ?T) (wordTable (wordListOf ''ab ab''))))) \<and>
     length (merges (snd (train ?T ''ab ab''))) \<le> 1"
    by simp
  from h m s v g b show ?thesis by blast
qed

subsection \<open>Pair counts and pair selection\<close>

lemma splitSpace_nospace: "SP \<notin> set b \<Longrightarrow> splitSpace b = [b]"
  by (induction b) auto

lemma splitSpace_append: "SP \<notin> set a \<Longrightarrow> splitSpace (a @ SP # rest) = a # splitSpace rest"
  by (induction a) auto

lemma splitSpace_pairKey:
  "SP \<notin> set a \<Longrightarrow> SP \<notin> set b \<Longrightarrow> splitSpace (pairKey a b) = [a, b]"
  by (simp add: pairKey_def splitSpace_append splitSpace_nospace)

lemma splitSpace_ne: "splitSpace s \<noteq> []"
  by (induction s) (auto split: list.splits)

lemma splitSpace_free: "s \<in> set (splitSpace w) \<Longrightarrow> SP \<notin> set s"
proof (induction w arbitrary: s)
  case Nil
  then show ?case by simp
next
  case (Cons c w)
  then show ?case
    by (cases "splitSpace w") (auto split: if_splits)
qed

lemma pairKey_inject:
  assumes "SP \<notin> set a" "SP \<notin> set b" "SP \<notin> set x" "SP \<notin> set y"
  shows "pairKey x y = pairKey a b \<longleftrightarrow> x = a \<and> y = b"
proof
  assume "pairKey x y = pairKey a b"
  then have "splitSpace (pairKey x y) = splitSpace (pairKey a b)" by simp
  with assms show "x = a \<and> y = b" by (simp add: splitSpace_pairKey)
qed simp

lemma getOr0_update: "getOr0 (AList.update k v al) k' = (if k' = k then v else getOr0 al k')"
  by (simp add: getOr0_def update_conv')

lemma getPairsLoop_count:
  assumes "\<forall>s\<in>set syms. SP \<notin> set s" "SP \<notin> set a" "SP \<notin> set b"
  shows "getOr0 (getPairsLoop syms pairs) (pairKey a b)
     = getOr0 pairs (pairKey a b) + occurrences a b syms"
  using assms
proof (induction syms pairs rule: getPairsLoop.induct)
  case (1 x y rest pairs)
  then show ?case
    by (auto simp: getOr0_update pairKey_inject)
qed auto

lemma getPairsLoop_distinct:
  "distinct (map fst pairs) \<Longrightarrow> distinct (map fst (getPairsLoop syms pairs))"
  by (induction syms pairs rule: getPairsLoop.induct) (auto simp: distinct_update)

lemma getOr0_notin: "k \<notin> fst ` set al \<Longrightarrow> getOr0 al k = 0"
  by (force simp: getOr0_def dest: map_of_SomeD split: option.splits)

lemma addPairs_count:
  "distinct (map fst pairs) \<Longrightarrow>
   getOr0 (addPairs freq pairs pc) key = getOr0 pc key + freq * getOr0 pairs key"
proof (induction pairs arbitrary: pc)
  case Nil
  then show ?case by (simp add: addPairs_def getOr0_def)
next
  case (Cons p pairs)
  obtain k n where p: "p = (k, n)" by (cases p)
  have "addPairs freq (p # pairs) pc
      = addPairs freq pairs (AList.update k (getOr0 pc k + freq * n) pc)"
    by (simp add: addPairs_def p)
  moreover have "getOr0 (p # pairs) key = (if key = k then n else getOr0 pairs key)"
    by (simp add: getOr0_def p)
  moreover have "key = k \<Longrightarrow> getOr0 pairs key = 0"
    using Cons.prems by (auto simp: p intro: getOr0_notin)
  ultimately show ?case
    using Cons by (simp add: getOr0_update)
qed

lemma countPairs_fold_count:
  assumes "SP \<notin> set a" "SP \<notin> set b"
  shows "getOr0 (fold (\<lambda>(word, freq) pc. addPairs freq (getPairs (splitSpace word)) pc) words pc)
            (pairKey a b)
     = getOr0 pc (pairKey a b) + weightedCount words a b"
proof (induction words arbitrary: pc)
  case Nil
  then show ?case by (simp add: weightedCount_def)
next
  case (Cons w words)
  obtain word freq where w: "w = (word, freq)" by (cases w)
  have "getOr0 (getPairs (splitSpace word)) (pairKey a b) = occurrences a b (splitSpace word)"
    unfolding getPairs_def
    using getPairsLoop_count [of "splitSpace word" a b "[]"] assms splitSpace_free
    by (auto simp: getOr0_def)
  then show ?case
    using Cons
    by (simp add: w weightedCount_def addPairs_count getPairs_def getPairsLoop_distinct)
qed

lemma countPairs_count:
  "SP \<notin> set a \<Longrightarrow> SP \<notin> set b \<Longrightarrow>
   getOr0 (countPairs words) (pairKey a b) = weightedCount words a b"
  unfolding countPairs_def using countPairs_fold_count [of a b words "[]"]
  by (simp add: getOr0_def)


lemma getPairsLoop_keys:
  assumes "\<forall>s\<in>set syms. SP \<notin> set s" "\<forall>k\<in>fst ` set pairs. isPairKey k"
  shows "\<forall>k\<in>fst ` set (getPairsLoop syms pairs). isPairKey k"
  using assms
proof (induction syms pairs rule: getPairsLoop.induct)
  case (1 x y rest pairs)
  have "isPairKey (pairKey x y)"
    using "1.prems"(1) by (auto simp: isPairKey_def)
  with 1 show ?case
    by (simp add: dom_update)
qed auto

lemma addPairs_keys:
  "fst ` set (addPairs freq pairs pc) = fst ` set pc \<union> fst ` set pairs"
proof (induction pairs arbitrary: pc)
  case Nil
  then show ?case by (simp add: addPairs_def)
next
  case (Cons p pairs)
  obtain k n where p: "p = (k, n)" by (cases p)
  have "addPairs freq (p # pairs) pc
      = addPairs freq pairs (AList.update k (getOr0 pc k + freq * n) pc)"
    by (simp add: addPairs_def p)
  then show ?case
    using Cons [of "AList.update k (getOr0 pc k + freq * n) pc"]
    by (auto simp: dom_update p)
qed

lemma addPairs_distinct:
  "distinct (map fst pc) \<Longrightarrow> distinct (map fst (addPairs freq pairs pc))"
proof (induction pairs arbitrary: pc)
  case Nil
  then show ?case by (simp add: addPairs_def)
next
  case (Cons p pairs)
  obtain k n where p: "p = (k, n)" by (cases p)
  have "addPairs freq (p # pairs) pc
      = addPairs freq pairs (AList.update k (getOr0 pc k + freq * n) pc)"
    by (simp add: addPairs_def p)
  then show ?case
    using Cons by (simp add: distinct_update)
qed

lemma countPairs_fold_keys:
  assumes "\<forall>k\<in>fst ` set pc. isPairKey k"
  shows "\<forall>k\<in>fst ` set (fold (\<lambda>(word, freq) pc.
            addPairs freq (getPairs (splitSpace word)) pc) words pc). isPairKey k"
  using assms
proof (induction words arbitrary: pc)
  case Nil
  then show ?case by simp
next
  case (Cons w words)
  obtain word freq where w: "w = (word, freq)" by (cases w)
  have "\<forall>k\<in>fst ` set (getPairs (splitSpace word)). isPairKey k"
    unfolding getPairs_def
    by (rule getPairsLoop_keys) (auto dest: splitSpace_free)
  with Cons.prems have "\<forall>k\<in>fst ` set (addPairs freq (getPairs (splitSpace word)) pc). isPairKey k"
    by (auto simp: addPairs_keys)
  from Cons.IH [OF this] show ?case
    by (simp add: w)
qed

lemma countPairs_keys: "(key, c) \<in> set (countPairs words) \<Longrightarrow> isPairKey key"
  using countPairs_fold_keys [of "[]" words] unfolding countPairs_def by force

lemma countPairs_distinct: "distinct (map fst (countPairs words))"
proof -
  have "distinct (map fst pc) \<Longrightarrow> distinct (map fst (fold (\<lambda>(word, freq) pc.
            addPairs freq (getPairs (splitSpace word)) pc) words pc))" for pc
    by (induction words arbitrary: pc) (auto simp: addPairs_distinct)
  from this [of "[]"] show ?thesis
    by (simp add: countPairs_def)
qed

lemma countPairs_entry:
  assumes "(key, c) \<in> set (countPairs words)"
  shows "\<exists>a b. key = pairKey a b \<and> SP \<notin> set a \<and> SP \<notin> set b \<and>
     asPair (splitSpace key) = (a, b) \<and> c = weightedCount words a b"
proof -
  from countPairs_keys [OF assms] obtain a b where
    ab: "key = pairKey a b" "SP \<notin> set a" "SP \<notin> set b"
    by (auto simp: isPairKey_def)
  have "map_of (countPairs words) key = Some c"
    using assms countPairs_distinct by (simp add: map_of_eq_Some_iff)
  then have "getOr0 (countPairs words) key = c"
    by (simp add: getOr0_def)
  with ab countPairs_count [of a b words] have "c = weightedCount words a b"
    by simp
  with ab show ?thesis
    by (auto simp: splitSpace_pairKey)
qed


lemma find_append_alt:
  "find P (xs @ ys) = (case find P xs of None \<Rightarrow> find P ys | Some x \<Rightarrow> Some x)"
  by (induction xs) auto

lemma firstHighest_SomeD:
  assumes "firstHighest xs = Some (k0, c0)"
  shows "(k0, c0) \<in> set xs" and "\<And>k c. (k, c) \<in> set xs \<Longrightarrow> c \<le> c0"
proof -
  from assms obtain i where i: "i < length xs" "xs ! i = (k0, c0)"
    "list_all (\<lambda>(pair', count'). count' \<le> c0) xs"
    unfolding firstHighest_def find_Some_iff by (metis (mono_tags, lifting) case_prod_conv)
  from i(1,2) show "(k0, c0) \<in> set xs" by (metis nth_mem)
  from i(3) show "\<And>k c. (k, c) \<in> set xs \<Longrightarrow> c \<le> c0"
    by (auto simp: list_all_iff)
qed

lemma firstHighest_snoc:
  "firstHighest (xs @ [(k, c)]) =
     (case firstHighest xs of
        None \<Rightarrow> Some (k, c)
      | Some (k0, c0) \<Rightarrow> if c0 < c then Some (k, c) else Some (k0, c0))"
    (is "?P xs")
  and firstHighest_None_iff: "firstHighest xs = None \<longleftrightarrow> xs = []" (is "?Q xs")
proof -
  have step: "firstHighest (xs @ [(k, c)]) =
     (case firstHighest xs of
        None \<Rightarrow> Some (k, c)
      | Some (k0, c0) \<Rightarrow> if c0 < c then Some (k, c) else Some (k0, c0))"
    if q: "?Q xs" for xs k c
  proof (cases "firstHighest xs")
    case None
    with q have "xs = []" by simp
    then show ?thesis by (simp add: firstHighest_def)
  next
    case (Some p)
    obtain k0 c0 where p: "p = (k0, c0)" by (cases p)
    note h = firstHighest_SomeD [OF Some [unfolded p]]
    let ?new = "\<lambda>(pair, count). list_all (\<lambda>(pair', count'). count' \<le> count) (xs @ [(k, c)])"
    let ?old = "\<lambda>(pair, count). list_all (\<lambda>(pair', count'). count' \<le> count) xs"
    have unf: "firstHighest (xs @ [(k, c)]) =
        (case find ?new xs of
           None \<Rightarrow> (if ?new (k, c) then Some (k, c) else None)
         | Some x \<Rightarrow> Some x)"
      by (simp add: firstHighest_def find_append_alt cong: option.case_cong)
    show ?thesis
    proof (cases "c0 < c")
      case True
      have n: "find ?new xs = None"
        unfolding find_None_iff using h(2) True by (fastforce simp: list_all_iff)
      have "?new (k, c)"
        using h(2) True by (fastforce simp: list_all_iff)
      then show ?thesis
        unfolding unf n Some p using True by simp
    next
      case False
      have "find ?new xs = firstHighest xs"
        unfolding firstHighest_def
        by (rule find_cong) (use h False in \<open>fastforce simp: list_all_iff\<close>)+
      then show ?thesis
        unfolding unf Some p using False by simp
    qed
  qed
  have all: "?Q xs"
  proof (induction xs rule: rev_induct)
    case Nil
    then show ?case by (simp add: firstHighest_def)
  next
    case (snoc x xs)
    obtain k' c' where "x = (k', c')" by (cases x)
    with step [OF snoc, of k' c'] show ?case
      by (auto split: option.splits)
  qed
  from step [OF all] show "?P xs" .
  from all show "?Q xs" .
qed

lemma selectBest_snoc:
  "selectBest mf (xs @ [(k, c)]) =
    (case selectBest mf xs of (maxCount, bestPair) \<Rightarrow>
       if c > maxCount \<and> c \<ge> mf then (c, Some (asPair (splitSpace k))) else (maxCount, bestPair))"
  by (simp add: selectBest_def split: prod.splits)

lemma selectBest_firstHighest:
  "selectBest mf pcs =
     (case firstHighest pcs of
        None \<Rightarrow> (0, None)
      | Some (key, c) \<Rightarrow>
          if c \<ge> mf \<and> c > 0 then (c, Some (asPair (splitSpace key))) else (0, None))"
proof (induction pcs rule: rev_induct)
  case Nil
  then show ?case by (simp add: selectBest_def firstHighest_def)
next
  case (snoc x xs)
  obtain k c where x: "x = (k, c)" by (cases x)
  show ?case
  proof (cases "firstHighest xs")
    case None
    with snoc show ?thesis
      by (simp add: x selectBest_snoc firstHighest_snoc)
  next
    case (Some p)
    obtain k0 c0 where p: "p = (k0, c0)" by (cases p)
    with snoc Some show ?thesis
      by (auto simp: x selectBest_snoc firstHighest_snoc)
  qed
qed


lemma minFreqOf_pos: "0 < minFreqOf cfg"
  by (simp add: minFreqOf_def split: option.splits)

lemma trainLoop_firstHighest:
  "trainLoop cfg v mrg words mergeCount =
     (if length (fst v) < vocabSize cfg \<and> mergeCount < maxMergesOf cfg then
        (case firstHighest (countPairs words) of
           None \<Rightarrow> (v, mrg)
         | Some (key, cnt) \<Rightarrow>
             if cnt < minFreqOf cfg then (v, mrg)
             else
               (case asPair (splitSpace key) of (first, second) \<Rightarrow>
                  trainLoop cfg (addToken (first @ second) v) (mrg @ [(first, second)])
                    (applyMerge words (first, second)) (mergeCount + 1)))
      else (v, mrg))"
proof (cases "firstHighest (countPairs words)")
  case None
  then have "countPairs words = []"
    by (simp add: firstHighest_None_iff)
  moreover have "firstHighest [] = None"
    by (simp add: firstHighest_def)
  ultimately show ?thesis
    by (subst trainLoop.simps) simp
next
  case (Some p)
  obtain key cnt where p: "p = (key, cnt)" by (cases p)
  from Some have ne: "countPairs words \<noteq> []"
    using firstHighest_None_iff [of "countPairs words"] by auto
  have pos: "\<not> cnt < minFreqOf cfg \<Longrightarrow> 0 < cnt"
    using minFreqOf_pos [of cfg] by simp
  show ?thesis
    using ne pos
    by (subst trainLoop.simps)
       (auto simp: selectBest_firstHighest Some p Let_def split: prod.splits)
qed

lemma firstHighest_max_weighted:
  assumes "firstHighest (countPairs words) = Some (key, cnt)" "SP \<notin> set a" "SP \<notin> set b"
  shows "weightedCount words a b \<le> cnt"
proof (cases "map_of (countPairs words) (pairKey a b)")
  case None
  then have "getOr0 (countPairs words) (pairKey a b) = 0"
    by (simp add: getOr0_def)
  with countPairs_count [OF assms(2,3), of words] show ?thesis by simp
next
  case (Some c)
  then have "(pairKey a b, c) \<in> set (countPairs words)"
    by (rule map_of_SomeD)
  from firstHighest_SomeD(2) [OF assms(1) this] have "c \<le> cnt" .
  moreover from Some have "getOr0 (countPairs words) (pairKey a b) = c"
    by (simp add: getOr0_def)
  ultimately show ?thesis
    using countPairs_count [OF assms(2,3), of words] by simp
qed

text \<open>
  A round of the training loop. When the loop guard holds, the round takes the entry of the
  pair counts with the highest count, the first one in iteration order among equals; it
  stops when there is no pair or when that count is below \<open>this.config.minFreq || 2\<close>, and
  otherwise records the pair of that entry as the next merge. Every entry of the pair
  counts belongs to a pair of symbols, its count is the sum over the words of frequency
  times occurrences, and no pair of symbols has a higher sum than the entry taken.
\<close>

lemma trainLoop_round:
  "trainLoop cfg v mrg words mergeCount =
     (if length (fst v) < vocabSize cfg \<and> mergeCount < maxMergesOf cfg then
        (case firstHighest (countPairs words) of
           None \<Rightarrow> (v, mrg)
         | Some (key, cnt) \<Rightarrow>
             if cnt < minFreqOf cfg then (v, mrg)
             else
               (case asPair (splitSpace key) of (first, second) \<Rightarrow>
                  trainLoop cfg (addToken (first @ second) v) (mrg @ [(first, second)])
                    (applyMerge words (first, second)) (mergeCount + 1)))
      else (v, mrg)) \<and>
   (firstHighest (countPairs words) = None \<longleftrightarrow> countPairs words = []) \<and>
   (\<forall>key cnt. (key, cnt) \<in> set (countPairs words) \<longrightarrow>
      (\<exists>a b. key = pairKey a b \<and> asPair (splitSpace key) = (a, b) \<and>
         cnt = weightedCount words a b)) \<and>
   (\<forall>key cnt a b. firstHighest (countPairs words) = Some (key, cnt) \<longrightarrow>
      SP \<notin> set a \<longrightarrow> SP \<notin> set b \<longrightarrow> weightedCount words a b \<le> cnt)"
  using trainLoop_firstHighest [of cfg v mrg words mergeCount]
    firstHighest_None_iff [of "countPairs words"] countPairs_entry [of _ _ words]
    firstHighest_max_weighted [of words]
  by blast

text \<open>
  Claim C4, evaluated where the code departs from it. With \<open>minFreq = 0\<close> no count is
  below \<open>minFreq\<close>. Training on \<open>ab ab\<close> (both pairs counted twice) takes the first of the
  two highest pairs, as the claim says. Training on \<open>ab\<close> (both pairs counted once) stops
  without a merge although pairs exist and the best count, 1, is not below \<open>minFreq\<close>: the
  loop compares with \<open>this.config.minFreq || 2\<close>, which turns the configured 0 into 2. With
  \<open>minFreq = 1\<close> the same training takes the pair. (\<open>vocabSize = 8\<close> ends each loop after
  its first merge.)
\<close>

theorem trainLoop_zero_minFreq:
  "minFreq (config (newTokenizer (defaultConfig\<lparr>vocabSize := 8, minFreq := Some 0\<rparr>))) = Some 0 \<and>
   countPairs (wordTable (wordListOf ''ab ab'')) = [(''a b'', 2), (''b </w>'', 2)] \<and>
   firstHighest (countPairs (wordTable (wordListOf ''ab ab''))) = Some (''a b'', 2) \<and>
   merges (snd (train (newTokenizer (defaultConfig\<lparr>vocabSize := 8, minFreq := Some 0\<rparr>))
     ''ab ab'')) = [(''a'', ''b'')] \<and>
   countPairs (wordTable (wordListOf ''ab'')) = [(''a b'', 1), (''b </w>'', 1)] \<and>
   firstHighest (countPairs (wordTable (wordListOf ''ab''))) = Some (''a b'', 1) \<and>
   merges (snd (train (newTokenizer (defaultConfig\<lparr>vocabSize := 8, minFreq := Some 0\<rparr>))
     ''ab'')) = [] \<and>
   merges (snd (train (newTokenizer (defaultConfig\<lparr>vocabSize := 8, minFreq := Some 1\<rparr>))
     ''ab'')) = [(''a'', ''b'')]"
  by code_simp

subsection \<open>Export and import\<close>

lemma fold_update_fresh:
  "distinct (map fst (acc @ xs)) \<Longrightarrow>
   fold (\<lambda>(k, v) m. AList.update k v m) xs acc = acc @ xs"
proof (induction xs arbitrary: acc)
  case Nil
  then show ?case by simp
next
  case (Cons x xs)
  obtain k v where x: "x = (k, v)" by (cases x)
  have fresh: "AList.update k v acc = acc @ [(k, v)]" if "k \<notin> fst ` set acc" for acc :: "('a \<times> 'b) list"
    using that by (induction acc) auto
  from Cons.prems have "k \<notin> fst ` set acc"
    by (auto simp: x)
  then have "fold (\<lambda>(k, v) m. AList.update k v m) (x # xs) acc
      = fold (\<lambda>(k, v) m. AList.update k v m) xs (acc @ [(k, v)])"
    by (simp add: x fresh)
  also have "\<dots> = (acc @ [(k, v)]) @ xs"
    using Cons.prems by (intro Cons.IH) (simp add: x)
  finally show ?case by (simp add: x)
qed

lemma objFromEntries_distinct: "distinct (map fst xs) \<Longrightarrow> objFromEntries xs = xs"
  using fold_update_fresh [of "[]" xs] by (simp add: objFromEntries_def)

lemma mapFromEntries_distinct: "distinct (map fst xs) \<Longrightarrow> mapFromEntries xs = xs"
  using fold_update_fresh [of "[]" xs] by (simp add: mapFromEntries_def)

lemma mset_objEntries: "mset (objEntries obj) = mset obj"
  by (simp add: objEntries_def)

lemma of_char_digitChar: "d < 10 \<Longrightarrow> of_char (digitChar d) = (48 + d :: nat)"
  by (simp add: digitChar_def)

lemma digitChar_zero_iff: "d < 10 \<Longrightarrow> digitChar d = CHR ''0'' \<longleftrightarrow> d = 0"
proof -
  assume d: "d < 10"
  have "digitChar d = CHR ''0'' \<longleftrightarrow> (of_char (digitChar d) :: nat) = of_char CHR ''0''"
    by (simp only: of_char_eq_iff)
  also have "\<dots> \<longleftrightarrow> d = 0"
    using d by (simp add: of_char_digitChar)
  finally show ?thesis .
qed

lemma digitValue_digitChar: "d < 10 \<Longrightarrow> digitValue (digitChar d) = Some d"
  by (simp add: digitValue_def digitChar_def)

lemma parseDigits_snoc:
  "parseDigits acc (xs @ [c]) =
     (case parseDigits acc xs of
        None \<Rightarrow> None
      | Some m \<Rightarrow> map_option (\<lambda>d. 10 * m + d) (digitValue c))"
  by (induction xs arbitrary: acc) (auto split: option.splits)

lemma parseDigits_decimal: "parseDigits 0 (decimal n) = Some n"
proof (induction n rule: decimal.induct)
  case (1 n)
  show ?case
  proof (cases "n < 10")
    case True
    then show ?thesis
      by (subst decimal.simps) (simp add: digitValue_digitChar)
  next
    case False
    with 1 show ?thesis
      by (subst decimal.simps) (simp add: parseDigits_snoc digitValue_digitChar)
  qed
qed

lemma decimal_hd: "decimal n \<noteq> [] \<and> (0 < n \<longrightarrow> hd (decimal n) \<noteq> CHR ''0'')"
proof (induction n rule: decimal.induct)
  case (1 n)
  show ?case
  proof (cases "n < 10")
    case True
    then show ?thesis
      by (subst (1 2) decimal.simps) (auto simp: digitChar_zero_iff)
  next
    case False
    with 1 have "decimal (n div 10) \<noteq> []" "hd (decimal (n div 10)) \<noteq> CHR ''0''"
      by auto
    with False show ?thesis
      by (subst (1 2) decimal.simps) simp
  qed
qed

lemma decimal_0: "decimal 0 = ''0''"
  by (subst decimal.simps) (simp add: digitChar_zero_iff)

lemma canonicalNat_decimal: "canonicalNat (decimal n) = Some n"
proof (cases "n = 0")
  case True
  then show ?thesis
    by (simp add: decimal_0 canonicalNat_def digitValue_def)
next
  case False
  with decimal_hd [of n] show ?thesis
    by (simp add: canonicalNat_def parseDigits_decimal)
qed

lemma decimal_inject: "decimal m = decimal n \<longleftrightarrow> m = n"
  by (metis canonicalNat_decimal option.inject)

lemma digitChar_not_white: "d < 10 \<Longrightarrow> \<not> isWhiteSpace (digitChar d)"
  by (auto simp: isWhiteSpace_def of_char_digitChar)

lemma decimal_not_white: "c \<in> set (decimal n) \<Longrightarrow> \<not> isWhiteSpace c"
proof (induction n rule: decimal.induct)
  case (1 n)
  show ?case
  proof (cases "n < 10")
    case True
    with "1.prems" show ?thesis
      by (subst (asm) decimal.simps) (simp add: digitChar_not_white)
  next
    case False
    with 1 show ?thesis
      by (subst (asm) (2) decimal.simps) (auto simp: digitChar_not_white)
  qed
qed

lemma trim_no_white: "\<forall>c\<in>set s. \<not> isWhiteSpace c \<Longrightarrow> trim s = s"
proof -
  have id: "dropWhile P xs = xs" if "\<forall>x\<in>set xs. \<not> P x" for P :: "char \<Rightarrow> bool" and xs
    using that by (cases xs) simp_all
  assume a: "\<forall>c\<in>set s. \<not> isWhiteSpace c"
  then have "dropWhile isWhiteSpace s = s"
    by (rule id)
  moreover from a have "dropWhile isWhiteSpace (rev s) = rev s"
    by (intro id) simp
  ultimately show ?thesis
    by (simp add: trim_def)
qed

lemma numberOf_decimal: "numberOf (decimal n) = Some n"
proof -
  have "trim (decimal n) = decimal n"
    by (rule trim_no_white) (simp add: decimal_not_white)
  with decimal_hd [of n] show ?thesis
    by (simp add: numberOf_def parseDigits_decimal)
qed

lemma mergeConfig_incoming: "mergeConfig current incoming = incoming"
  by (cases current, cases incoming) (simp add: mergeConfig_def)


lemma inj_keyToDecimal: "inj keyToDecimal"
  by (auto simp: inj_def keyToDecimal_def decimal_inject)

lemma numberKeys_of_decimal_keys:
  assumes "\<forall>e\<in>set E. e \<in> range keyToDecimal"
  shows "\<exists>N. numberKeys E = Some N \<and> map keyToDecimal N = E"
  using assms
proof (induction E)
  case Nil
  then show ?case by (simp add: numberKeys_def)
next
  case (Cons e E)
  then obtain N where N: "numberKeys E = Some N" "map keyToDecimal N = E"
    by auto
  from Cons.prems obtain x where e: "e = keyToDecimal x"
    by auto
  have "numberKeys (e # E) = Some (x # N)"
    using N(1) by (simp add: numberKeys_def e keyToDecimal_def numberOf_decimal)
  with N(2) e show ?case
    by simp
qed

lemma distinct_keys_mset:
  assumes "mset xs = mset ys" "distinct (map fst ys)"
  shows "distinct (map fst xs)" "set xs = set ys" "map_of xs = map_of ys"
proof -
  from assms(1) have "mset (map fst xs) = mset (map fst ys)"
    by (metis mset_map)
  with assms(2) show d: "distinct (map fst xs)"
    by (metis mset_eq_imp_distinct_iff)
  from assms(1) show s: "set xs = set ys"
    by (rule mset_eq_setD)
  from d assms(2) s show "map_of xs = map_of ys"
    by (simp add: map_of_inject_set)
qed


subsection \<open>Invariants of the training loop\<close>

text \<open>
  A property of vocabulary, merge list and table that holds before the loop and is kept by
  every round (which merges a pair of the pair counts) holds when the loop ends.
\<close>

lemma trainLoop_invariant:
  assumes init: "I v mrg W"
    and step: "\<And>v mrg W a b c. I v mrg W \<Longrightarrow> (pairKey a b, c) \<in> set (countPairs W) \<Longrightarrow>
        SP \<notin> set a \<Longrightarrow> SP \<notin> set b \<Longrightarrow>
        I (addToken (a @ b) v) (mrg @ [(a, b)]) (applyMerge W (a, b))"
  shows "\<exists>W'. I (fst (trainLoop cfg v mrg W k)) (snd (trainLoop cfg v mrg W k)) W'"
  using init
proof (induction cfg v mrg W k rule: trainLoop.induct)
  case (1 cfg v mrg currentWords mergeCount)
  note eq = trainLoop_firstHighest [of cfg v mrg currentWords mergeCount]
  show ?case
  proof (cases "firstHighest (countPairs currentWords)")
    case None
    with eq "1.prems" show ?thesis by auto
  next
    case (Some p)
    obtain key cnt where p: "p = (key, cnt)" by (cases p)
    show ?thesis
    proof (cases "length (fst v) < vocabSize cfg \<and> mergeCount < maxMergesOf cfg
        \<and> \<not> cnt < minFreqOf cfg")
      case False
      with eq Some p "1.prems" show ?thesis by auto
    next
      case True
      have mem: "(key, cnt) \<in> set (countPairs currentWords)"
        using firstHighest_SomeD(1) [OF Some [unfolded p]] .
      from countPairs_entry [OF mem] obtain a b where
        ab: "key = pairKey a b" "SP \<notin> set a" "SP \<notin> set b" "asPair (splitSpace key) = (a, b)"
        by blast
      let ?v = "addToken (a @ b) v" and ?m = "mrg @ [(a, b)]"
      let ?W = "applyMerge currentWords (a, b)"
      have rec: "trainLoop cfg v mrg currentWords mergeCount
          = trainLoop cfg ?v ?m ?W (mergeCount + 1)"
        using eq True by (simp add: Some p ab(4))
      have ne: "countPairs currentWords \<noteq> []"
        using mem by auto
      have pos: "0 < cnt"
        using True minFreqOf_pos [of cfg] by simp
      have sb: "(cnt, Some (a, b)) = selectBest (minFreqOf cfg) (countPairs currentWords)"
        using True pos by (simp add: selectBest_firstHighest Some p ab(4))
      have I': "I ?v ?m ?W"
        using step [OF "1.prems" mem [unfolded ab(1)] ab(2,3)] .
      have guard: "length (fst v) < vocabSize cfg \<and> mergeCount < maxMergesOf cfg"
        and ne': "length (countPairs currentWords) \<noteq> 0"
        and mc: "\<not> cnt < minFreqOf cfg"
        using True ne by simp_all
      have I'': "I (addToken (fst (a, b) @ snd (a, b)) v) (mrg @ [(a, b)])
          (applyMerge currentWords (a, b))"
        using I' by simp
      have "\<exists>W'. I (fst (trainLoop cfg ?v ?m ?W (mergeCount + 1)))
          (snd (trainLoop cfg ?v ?m ?W (mergeCount + 1))) W'"
        using "1.IH" [OF guard refl ne' sb refl mc I''] by simp
      then show ?thesis
        by (simp only: rec)
    qed
  qed
qed

lemma setToken_distinct:
  assumes "distinct (map fst (fst v))" "distinct (map fst (fst (snd v)))"
  shows "distinct (map fst (fst (setToken t v)))"
    and "distinct (map fst (fst (snd (setToken t v))))"
  using assms by (cases v; simp add: setToken_def distinct_update)+

lemma addToken_distinct:
  assumes "distinct (map fst (fst v))" "distinct (map fst (fst (snd v)))"
  shows "distinct (map fst (fst (addToken t v)))"
    and "distinct (map fst (fst (snd (addToken t v))))"
  using assms setToken_distinct [of v t] by (simp_all add: addToken_def)

lemma seedVocabulary_distinct: "distinctKeys (seedVocabulary cfg words)"
proof -
  have a: "distinctKeys v \<Longrightarrow> distinctKeys (fold setToken ts v)" for ts v
    by (induction ts arbitrary: v) (auto simp: distinctKeys_def setToken_distinct)
  have b: "distinctKeys v \<Longrightarrow> distinctKeys (fold addToken ts v)" for ts v
    by (induction ts arbitrary: v) (auto simp: distinctKeys_def addToken_distinct)
  have "distinctKeys ([], [], 0)"
    by (simp add: distinctKeys_def)
  then have "distinctKeys (fold addToken (sort (allCharsOf words))
      (fold setToken (specialTokens cfg) ([], [], 0)))"
    by (intro a b)
  then show ?thesis
    unfolding seedVocabulary_def by (simp add: distinctKeys_def addToken_distinct)
qed

lemma train_fields:
  fixes st :: bpe and input :: string
  assumes "trim input \<noteq> []"
  defines "r \<equiv> trainLoop (config st) (seedVocabulary (config st) (wordTable (wordListOf input)))
      [] (wordTable (wordListOf input)) 0"
  shows "fst (train st input) = Inr ()"
    and "vocabulary (snd (train st input)) = fst (fst r)"
    and "reverseVocabulary (snd (train st input)) = fst (snd (fst r))"
    and "merges (snd (train st input)) = snd r"
    and "config (snd (train st input)) = config st"
proof -
  from assms(1) have "input \<noteq> []"
    by (auto simp: trim_def)
  with assms(1) show "fst (train st input) = Inr ()"
    and "vocabulary (snd (train st input)) = fst (fst r)"
    and "reverseVocabulary (snd (train st input)) = fst (snd (fst r))"
    and "merges (snd (train st input)) = snd r"
    and "config (snd (train st input)) = config st"
    by (simp_all add: train_def Let_def r_def split: prod.splits)
qed

lemma train_failed_fields:
  assumes "trim text = []"
  shows "fst (train st text) = Inl InvalidInput"
    and "vocabulary (snd (train st text)) = []"
    and "reverseVocabulary (snd (train st text)) = []"
    and "merges (snd (train st text)) = []"
    and "config (snd (train st text)) = config st"
  using assms by (simp_all add: train_def resetState_def)

lemma train_distinct:
  "distinct (map fst (vocabulary (snd (train st text)))) \<and>
   distinct (map fst (reverseVocabulary (snd (train st text))))"
proof (cases "trim text = []")
  case True
  then show ?thesis by (simp add: train_failed_fields)
next
  case False
  let ?W = "wordTable (wordListOf text)"
  let ?r = "trainLoop (config st) (seedVocabulary (config st) ?W) [] ?W 0"
  have "distinctKeys (fst ?r)"
    using trainLoop_invariant [where I = "\<lambda>v m W. distinctKeys v"
        and v = "seedVocabulary (config st) ?W" and cfg = "config st" and mrg = "[]" and W = ?W
        and k = 0]
    by (simp add: seedVocabulary_distinct) (simp add: distinctKeys_def addToken_distinct)
  then show ?thesis
    by (simp add: train_fields [OF False] distinctKeys_def)
qed

lemma train_config: "config (snd (train st input)) = config st"
  by (cases "trim input = []") (simp_all add: train_fields train_failed_fields)

text \<open>
  Claim C9. Whatever state a tokenizer is in, importing into it what another state exports
  gives it the exporting state's vocabulary (the same pairs of token and id, as a map;
  tokens that are decimal numerals move to the front of the iteration order), its inverse
  vocabulary, its merge list, its configuration and its statistics: nothing of the
  importing state is left. This holds for every exporting state whose two maps have
  distinct keys, as every \<open>Map\<close> has; \<open>train_distinct\<close> shows it of the states that
  training leaves.
\<close>

theorem export_import_roundtrip:
  assumes "distinct (map fst (vocabulary st))" and "distinct (map fst (reverseVocabulary st))"
  shows "\<exists>st'. importVocabulary st0 (exportVocabulary st) = Some st' \<and>
     set (vocabulary st') = set (vocabulary st) \<and>
     distinct (map fst (vocabulary st')) \<and>
     map_of (vocabulary st') = map_of (vocabulary st) \<and>
     set (reverseVocabulary st') = set (reverseVocabulary st) \<and>
     distinct (map fst (reverseVocabulary st')) \<and>
     map_of (reverseVocabulary st') = map_of (reverseVocabulary st) \<and>
     merges st' = merges st \<and> config st' = config st \<and> trainingStats st' = trainingStats st"
proof -
  let ?V = "objEntries (vocabulary st)"
  let ?R = "map keyToDecimal (reverseVocabulary st)"
  have mv: "mset ?V = mset (vocabulary st)"
    by (rule mset_objEntries)
  note v = distinct_keys_mset [OF mv assms(1)]
  have eq: "map fst ?R = map decimal (map fst (reverseVocabulary st))"
    by (simp add: keyToDecimal_def)
  have "distinct (map decimal (map fst (reverseVocabulary st)))"
    using assms(2) by (simp only: distinct_map) (simp add: inj_on_def decimal_inject)
  then have dR: "distinct (map fst ?R)"
    unfolding eq .
  have snapR: "snapReverseVocabulary (exportVocabulary st) = ?R"
    using dR by (simp add: exportVocabulary_def objFromEntries_distinct)
  have snapV: "snapVocabulary (exportVocabulary st) = vocabulary st"
    by (simp add: exportVocabulary_def objFromEntries_distinct assms(1))
  have mE: "mset (objEntries ?R) = mset ?R"
    by (rule mset_objEntries)
  then have "set (objEntries ?R) = set ?R"
    by (rule mset_eq_setD)
  then have "\<forall>e\<in>set (objEntries ?R). e \<in> range keyToDecimal"
    by auto
  from numberKeys_of_decimal_keys [OF this] obtain N where
    N: "numberKeys (objEntries ?R) = Some N" "map keyToDecimal N = objEntries ?R"
    by blast
  define unkey :: "string \<times> string \<Rightarrow> nat \<times> string"
    where "unkey e = (the (numberOf (fst e)), snd e)" for e
  have unkey: "map unkey (map keyToDecimal xs) = xs" for xs
    by (induction xs) (simp_all add: unkey_def keyToDecimal_def numberOf_decimal)
  have "mset N = mset (map unkey (objEntries ?R))"
    by (simp only: N(2) [symmetric] unkey)
  also have "\<dots> = image_mset unkey (mset ?R)"
    by (simp only: mset_map mE)
  also have "\<dots> = mset (map unkey ?R)"
    by (simp only: mset_map)
  finally have mN: "mset N = mset (reverseVocabulary st)"
    by (simp only: unkey)
  note r = distinct_keys_mset [OF mN assms(2)]
  show ?thesis
    using v r
    by (simp add: importVocabulary_def snapR snapV N(1) mapFromEntries_distinct
          mergeConfig_incoming)
       (simp add: exportVocabulary_def)
qed

text \<open>
  A tokenizer made with vocabulary size 5 and no minimum frequency, trained on \<open>xy\<close>,
  imports what the default tokenizer trained on \<open>a1 a1\<close> exports: the two configurations
  differ, and after the import the importing state has the exporting one's.
\<close>

theorem export_import_roundtrip_witness:
  "distinct (map fst (vocabulary (snd (train (newTokenizer defaultConfig) ''a1 a1'')))) \<and>
   distinct (map fst (reverseVocabulary (snd (train (newTokenizer defaultConfig) ''a1 a1'')))) \<and>
   config (snd (train (newTokenizer (defaultConfig\<lparr>vocabSize := 5, minFreq := None\<rparr>)) ''xy''))
     \<noteq> config (snd (train (newTokenizer defaultConfig) ''a1 a1'')) \<and>
   (\<exists>st'. importVocabulary
            (snd (train (newTokenizer (defaultConfig\<lparr>vocabSize := 5, minFreq := None\<rparr>)) ''xy''))
            (exportVocabulary (snd (train (newTokenizer defaultConfig) ''a1 a1''))) = Some st' \<and>
      set (vocabulary st') = set (vocabulary (snd (train (newTokenizer defaultConfig) ''a1 a1''))) \<and>
      map_of (reverseVocabulary st') =
        map_of (reverseVocabulary (snd (train (newTokenizer defaultConfig) ''a1 a1''))) \<and>
      merges st' = merges (snd (train (newTokenizer defaultConfig) ''a1 a1'')) \<and>
      config st' = defaultConfig \<and>
      trainingStats st' = trainingStats (snd (train (newTokenizer defaultConfig) ''a1 a1'')))"
proof -
  let ?st = "snd (train (newTokenizer defaultConfig) ''a1 a1'')"
  let ?imp = "snd (train (newTokenizer (defaultConfig\<lparr>vocabSize := 5, minFreq := None\<rparr>)) ''xy'')"
  have d: "distinct (map fst (vocabulary ?st))" "distinct (map fst (reverseVocabulary ?st))"
    using train_distinct [of "newTokenizer defaultConfig" "''a1 a1''"] by simp_all
  have c: "config ?st = defaultConfig"
    by (simp add: train_config newTokenizer_def)
  have c0: "config ?imp \<noteq> config ?st"
    by (simp add: train_config newTokenizer_def defaultConfig_def)
  from export_import_roundtrip [OF d, of ?imp] obtain st' where
    "importVocabulary ?imp (exportVocabulary ?st) = Some st'"
    "set (vocabulary st') = set (vocabulary ?st)"
    "map_of (reverseVocabulary st') = map_of (reverseVocabulary ?st)"
    "merges st' = merges ?st" "config st' = config ?st" "trainingStats st' = trainingStats ?st"
    by blast
  with d c c0 show ?thesis
    by (simp only: simp_thms) blast
qed

subsection \<open>Characters of words, symbols and tokens\<close>

lemma toLowerChar_idem: "toLowerChar (toLowerChar c) = toLowerChar c"
proof -
  have "of_char (char_of (of_char c + 32 :: nat)) = (of_char c + 32 :: nat)"
    if "of_char c \<le> (222 :: nat)"
    using that by simp
  then show ?thesis
    by (auto simp: toLowerChar_def Let_def)
qed

lemma SP_white: "isWhiteSpace SP"
  by (simp add: isWhiteSpace_def SP_def)

lemma SP_lower: "toLowerChar SP = SP"
  by (simp add: toLowerChar_def SP_def)

lemma EOW_good: "c \<in> set EOW \<Longrightarrow> goodChar c"
  by (auto simp: EOW_def goodChar_def toLowerChar_def isWhiteSpace_def)

lemma collapseWhiteSpace_set: "set (collapseWhiteSpace s) \<subseteq> set s \<union> {SP}"
proof (induction s rule: collapseWhiteSpace.induct)
  case 1
  then show ?case by simp
next
  case (2 c cs)
  show ?case
  proof (cases "isWhiteSpace c")
    case True
    with 2 set_dropWhileD [of _ isWhiteSpace cs] show ?thesis by auto
  next
    case False
    with 2 show ?thesis by auto
  qed
qed

lemma trim_set: "set (trim s) \<subseteq> set s"
  by (auto simp: trim_def dest!: set_dropWhileD)

lemma splitWhiteSpace_all:
  "\<forall>w\<in>set (splitWhiteSpace s). set w \<subseteq> set s \<and> (\<forall>c\<in>set w. \<not> isWhiteSpace c)"
proof (induction s rule: splitWhiteSpace.induct)
  case 1
  then show ?case by simp
next
  case (2 c cs)
  show ?case
  proof (cases "isWhiteSpace c")
    case True
    with 2 set_dropWhileD [of _ isWhiteSpace cs] show ?thesis by auto
  next
    case False
    with 2 show ?thesis
      by (cases "splitWhiteSpace cs") auto
  qed
qed

lemma splitWhiteSpace_pieces:
  "w \<in> set (splitWhiteSpace s) \<Longrightarrow> set w \<subseteq> set s \<and> (\<forall>c\<in>set w. \<not> isWhiteSpace c)"
  using splitWhiteSpace_all by blast

lemma wordListOf_good:
  assumes "w \<in> set (wordListOf s)" "c \<in> set w"
  shows "goodChar c"
proof -
  from assms have w: "w \<in> set (splitWhiteSpace (trim (collapseWhiteSpace (toLowerCase s))))"
    by (simp add: wordListOf_def)
  from splitWhiteSpace_pieces [OF w] assms(2)
  have nw: "\<not> isWhiteSpace c" and "c \<in> set (trim (collapseWhiteSpace (toLowerCase s)))"
    by auto
  then have "c \<in> set (toLowerCase s) \<union> {SP}"
    using trim_set collapseWhiteSpace_set by blast
  with nw SP_white have "c \<in> toLowerChar ` set s"
    by (auto simp: toLowerCase_def)
  then have "toLowerChar c = c"
    by (auto simp: toLowerChar_idem)
  with nw show ?thesis by (simp add: goodChar_def)
qed

lemma joinWith_set: "set (joinWith sep xs) \<subseteq> \<Union> (set ` set xs) \<union> set sep"
  by (induction sep xs rule: joinWith.induct) auto

lemma processWord_set: "set (processWord w) \<subseteq> set w \<union> {SP} \<union> set EOW"
proof -
  have "set (joinWith [SP] (splitChars w)) \<subseteq> set w \<union> {SP}"
    using joinWith_set [of "[SP]" "splitChars w"] by (auto simp: splitChars_def)
  then show ?thesis by (auto simp: processWord_def)
qed

lemma splitSpace_all: "\<forall>s\<in>set (splitSpace w). set s \<subseteq> set w"
proof (induction w)
  case Nil
  then show ?case by simp
next
  case (Cons c w)
  then show ?case
    by (cases "splitSpace w") auto
qed

lemma splitSpace_set: "s \<in> set (splitSpace w) \<Longrightarrow> set s \<subseteq> set w"
  using splitSpace_all by blast


lemma getSubstitution_set:
  "set (getSubstitution matched pre post template)
     \<subseteq> set template \<union> set matched \<union> set pre \<union> set post"
proof (induction "length template" arbitrary: template rule: less_induct)
  case less
  show ?case
  proof (cases template)
    case Nil
    then show ?thesis by simp
  next
    case c: (Cons c t1)
    show ?thesis
    proof (cases t1)
      case Nil
      with c show ?thesis by simp
    next
      case (Cons d rest)
      let ?U = "set template \<union> set matched \<union> set pre \<union> set post"
      have r1: "set (getSubstitution matched pre post rest) \<subseteq> ?U"
        using less [of rest] c Cons by auto
      have r2: "set (getSubstitution matched pre post (d # rest)) \<subseteq> ?U"
        using less [of "d # rest"] c Cons by auto
      have m: "set matched \<subseteq> ?U" "set pre \<subseteq> ?U" "set post \<subseteq> ?U" "c \<in> ?U" "d \<in> ?U"
        using c Cons by auto
      show ?thesis
      proof (cases "c = CHR ''$''")
        case False
        then have "getSubstitution matched pre post template
            = c # getSubstitution matched pre post (d # rest)"
          unfolding c Cons by simp
        with r2 m show ?thesis by simp
      next
        case True
        then have "getSubstitution matched pre post template
           \<in> {c # getSubstitution matched pre post rest,
               matched @ getSubstitution matched pre post rest,
               pre @ getSubstitution matched pre post rest,
               post @ getSubstitution matched pre post rest,
               c # getSubstitution matched pre post (d # rest)}"
          unfolding c Cons by simp
        with r1 r2 m show ?thesis
          by (elim insertE emptyE) simp_all
      qed
    qed
  qed
qed

lemma replaceScan_set:
  "set (replaceScan pat template pre rest) \<subseteq> set pre \<union> set rest \<union> set template"
proof (induction pat template pre rest rule: replaceScan.induct)
  case (1 pat template pre rest)
  note unfold = replaceScan.simps [of pat template pre rest]
  show ?case
  proof (cases "matchAtoms pat pre rest")
    case None
    show ?thesis
    proof (cases rest)
      case Nil
      with None unfold show ?thesis by simp
    next
      case (Cons c cs)
      from None Cons unfold
      have eq: "replaceScan pat template pre rest = c # replaceScan pat template (pre @ [c]) cs"
        by simp
      have "set (replaceScan pat template (pre @ [c]) cs)
          \<subseteq> set (pre @ [c]) \<union> set cs \<union> set template"
        using "1.IH" None Cons by blast
      with Cons show ?thesis
        unfolding eq by auto
    qed
  next
    case (Some n)
    have sub: "set (getSubstitution (take n rest) pre (drop n rest) template)
        \<subseteq> set pre \<union> set rest \<union> set template"
      using getSubstitution_set [of "take n rest" pre "drop n rest" template]
        set_take_subset [of n rest] set_drop_subset [of n rest] by blast
    show ?thesis
    proof (cases "n = 0")
      case True
      show ?thesis
      proof (cases rest)
        case Nil
        from Some True Nil unfold
        have eq: "replaceScan pat template pre rest
            = getSubstitution (take n rest) pre (drop n rest) template"
          by simp
        from sub show ?thesis unfolding eq .
      next
        case (Cons c cs)
        from Some True Cons unfold
        have eq: "replaceScan pat template pre rest
            = getSubstitution (take n rest) pre (drop n rest) template
              @ c # replaceScan pat template (pre @ [c]) cs"
          by simp
        have "set (replaceScan pat template (pre @ [c]) cs)
            \<subseteq> set (pre @ [c]) \<union> set cs \<union> set template"
          using "1.IH" Some True Cons by blast
        with Cons sub show ?thesis
          unfolding eq by auto
      qed
    next
      case False
      from Some False unfold
      have eq: "replaceScan pat template pre rest
          = getSubstitution (take n rest) pre (drop n rest) template
            @ replaceScan pat template (pre @ take n rest) (drop n rest)"
        by simp
      have "set (replaceScan pat template (pre @ take n rest) (drop n rest))
          \<subseteq> set (pre @ take n rest) \<union> set (drop n rest) \<union> set template"
        using "1.IH" Some False by blast
      then have "set (replaceScan pat template (pre @ take n rest) (drop n rest))
          \<subseteq> set pre \<union> set rest \<union> set template"
        using set_take_subset [of n rest] set_drop_subset [of n rest] by auto
      with sub show ?thesis
        unfolding eq by auto
    qed
  qed
qed

lemma mergeWord_set: "set (mergeWord (a, b) w) \<subseteq> set w \<union> set a \<union> set b"
  using replaceScan_set [of "compileRegex (mergePatternSource a b)" "a @ b" "[]" w]
  by (auto simp: mergeWord_def replaceAll_def)

lemma applyMerge_keys:
  "fst ` set (applyMerge W m) = mergeWord m ` fst ` set W"
proof -
  have "fst ` set (fold (\<lambda>(word, freq) newWords.
          AList.update (mergeWord m word) freq newWords) W acc)
      = fst ` set acc \<union> mergeWord m ` fst ` set W" for acc
  proof (induction W arbitrary: acc)
    case Nil
    then show ?case by simp
  next
    case (Cons w W)
    obtain word freq where w: "w = (word, freq)" by (cases w)
    have "fst ` set (AList.update (mergeWord m word) freq acc)
        = {mergeWord m word} \<union> fst ` set acc"
      by (rule dom_update)
    then show ?case
      by (simp add: w Cons.IH)
  qed
  from this [of "[]"] show ?thesis
    by (simp add: applyMerge_def)
qed

lemma getPairsLoop_keys_adjacent:
  "k \<in> fst ` set (getPairsLoop syms pairs) \<Longrightarrow>
   k \<in> fst ` set pairs \<or> (\<exists>a b pre post. k = pairKey a b \<and> syms = pre @ a # b # post)"
proof (induction syms pairs rule: getPairsLoop.induct)
  case (1 x y rest pairs)
  from "1.prems" have "k \<in> fst ` set (getPairsLoop (y # rest)
      (AList.update (pairKey x y) (getOr0 pairs (pairKey x y) + 1) pairs))"
    by simp
  from "1.IH" [OF this]
  consider "k \<in> fst ` set pairs" | "k = pairKey x y"
    | a b pre post where "k = pairKey a b" "y # rest = pre @ a # b # post"
    by (auto simp: dom_update)
  then show ?case
  proof cases
    case 1
    then show ?thesis by simp
  next
    case 2
    then have "k = pairKey x y \<and> x # y # rest = [] @ x # y # rest" by simp
    then show ?thesis by blast
  next
    case 3
    then have "k = pairKey a b \<and> x # y # rest = (x # pre) @ a # b # post" by simp
    then show ?thesis by blast
  qed
qed auto

lemma countPairs_keys_adjacent:
  assumes "k \<in> fst ` set (countPairs W)"
  shows "\<exists>word freq a b pre post. (word, freq) \<in> set W \<and> k = pairKey a b \<and>
           splitSpace word = pre @ a # b # post"
proof -
  have "k \<in> fst ` set (fold (\<lambda>(word, freq) pc.
            addPairs freq (getPairs (splitSpace word)) pc) W pc) \<Longrightarrow>
        k \<in> fst ` set pc \<or> (\<exists>word freq a b pre post. (word, freq) \<in> set W \<and> k = pairKey a b \<and>
           splitSpace word = pre @ a # b # post)" for pc
  proof (induction W arbitrary: pc)
    case Nil
    then show ?case by simp
  next
    case (Cons w W)
    obtain word freq where w: "w = (word, freq)" by (cases w)
    from Cons.prems have "k \<in> fst ` set (fold (\<lambda>(word, freq) pc.
            addPairs freq (getPairs (splitSpace word)) pc) W
              (addPairs freq (getPairs (splitSpace word)) pc))"
      by (simp add: w)
    from Cons.IH [OF this] show ?case
    proof
      assume "k \<in> fst ` set (addPairs freq (getPairs (splitSpace word)) pc)"
      then have "k \<in> fst ` set pc \<or> k \<in> fst ` set (getPairsLoop (splitSpace word) [])"
        by (auto simp: addPairs_keys getPairs_def)
      then show ?thesis
      proof
        assume "k \<in> fst ` set (getPairsLoop (splitSpace word) [])"
        from getPairsLoop_keys_adjacent [OF this]
        obtain a b pre post where "k = pairKey a b" "splitSpace word = pre @ a # b # post"
          by auto
        then have "(word, freq) \<in> set (w # W) \<and> k = pairKey a b \<and>
            splitSpace word = pre @ a # b # post"
          by (simp add: w)
        then show ?thesis by blast
      qed simp
    next
      assume "\<exists>word freq a b pre post. (word, freq) \<in> set W \<and> k = pairKey a b \<and>
           splitSpace word = pre @ a # b # post"
      then obtain word' freq' a b pre post where
        "(word', freq') \<in> set W" "k = pairKey a b" "splitSpace word' = pre @ a # b # post"
        by blast
      then have "(word', freq') \<in> set (w # W) \<and> k = pairKey a b \<and>
          splitSpace word' = pre @ a # b # post"
        by simp
      then show ?thesis by blast
    qed
  qed
  from this [of "[]"] assms show ?thesis
    by (simp add: countPairs_def)
qed

lemma countPairs_adjacent:
  assumes "(pairKey a b, c) \<in> set (countPairs W)" "SP \<notin> set a" "SP \<notin> set b"
  shows "\<exists>word freq pre post. (word, freq) \<in> set W \<and> splitSpace word = pre @ a # b # post"
proof -
  from assms(1) have "pairKey a b \<in> fst ` set (countPairs W)"
    by force
  from countPairs_keys_adjacent [OF this] obtain word freq a' b' pre post where
    h: "(word, freq) \<in> set W" "pairKey a b = pairKey a' b'"
       "splitSpace word = pre @ a' # b' # post"
    by blast
  from h(3) have "a' \<in> set (splitSpace word)" "b' \<in> set (splitSpace word)"
    by simp_all
  then have "SP \<notin> set a'" "SP \<notin> set b'"
    by (auto dest: splitSpace_free)
  with h(2) assms(2,3) have "a = a'" "b = b'"
    by (simp_all add: pairKey_inject)
  with h show ?thesis by blast
qed

subsection \<open>Validation\<close>

lemma set_update_subset: "set (AList.update k x al) \<subseteq> insert (k, x) (set al)"
  by (induction al) auto

lemma setToken_tokens: "tokensOf (setToken t v) \<subseteq> insert t (tokensOf v)"
proof -
  obtain voc rvoc tokenId where v: "v = (voc, rvoc, tokenId)" by (cases v)
  have "snd ` set (AList.update tokenId t rvoc) \<subseteq> snd ` insert (tokenId, t) (set rvoc)"
    by (intro image_mono set_update_subset)
  then show ?thesis by (simp add: v setToken_def tokensOf_def)
qed

lemma addToken_tokens: "tokensOf (addToken t v) \<subseteq> insert t (tokensOf v)"
proof (cases "has (fst v) t")
  case True
  then show ?thesis by (auto simp: addToken_def)
next
  case False
  then show ?thesis by (simp add: addToken_def setToken_tokens)
qed

lemma goodTokens_insert:
  assumes "goodTokens cfg v" "goodToken cfg t" "tokensOf v' \<subseteq> insert t (tokensOf v)"
  shows "goodTokens cfg v'"
  unfolding goodTokens_def
proof
  fix x assume "x \<in> tokensOf v'"
  with assms(3) have "x = t \<or> x \<in> tokensOf v" by blast
  with assms(1,2) show "goodToken cfg x"
    unfolding goodTokens_def by blast
qed

lemma goodTokens_setToken:
  "goodTokens cfg v \<Longrightarrow> goodToken cfg t \<Longrightarrow> goodTokens cfg (setToken t v)"
  by (rule goodTokens_insert [OF _ _ setToken_tokens])

lemma goodTokens_addToken:
  "goodTokens cfg v \<Longrightarrow> goodToken cfg t \<Longrightarrow> goodTokens cfg (addToken t v)"
  by (rule goodTokens_insert [OF _ _ addToken_tokens])

lemma goodTokens_fold_setToken:
  "goodTokens cfg v \<Longrightarrow> \<forall>t\<in>set ts. goodToken cfg t \<Longrightarrow> goodTokens cfg (fold setToken ts v)"
  by (induction ts arbitrary: v) (simp_all add: goodTokens_setToken)

lemma goodTokens_fold_addToken:
  "goodTokens cfg v \<Longrightarrow> \<forall>t\<in>set ts. goodToken cfg t \<Longrightarrow> goodTokens cfg (fold addToken ts v)"
  by (induction ts arbitrary: v) (simp_all add: goodTokens_addToken)

lemma wordTable_keys: "fst ` set (wordTable wl) \<subseteq> processWord ` set wl"
proof -
  have "fst ` set (fold (\<lambda>word words.
          AList.update (processWord word) (getOr0 words (processWord word) + 1) words) wl acc)
      \<subseteq> fst ` set acc \<union> processWord ` set wl" for acc
  proof (induction wl arbitrary: acc)
    case Nil
    then show ?case by simp
  next
    case (Cons w wl)
    have "fst ` set (AList.update (processWord w) (getOr0 acc (processWord w) + 1) acc)
        = {processWord w} \<union> fst ` set acc"
      by (rule dom_update)
    with Cons [of "AList.update (processWord w) (getOr0 acc (processWord w) + 1) acc"]
    show ?case by auto
  qed
  from this [of "[]"] show ?thesis
    by (simp add: wordTable_def)
qed



lemma goodTable_wordTable: "goodTable (wordTable (wordListOf s))"
  unfolding goodTable_def
proof (intro ballI)
  fix k c assume k: "k \<in> fst ` set (wordTable (wordListOf s))" and c: "c \<in> set k"
  from k wordTable_keys obtain w where w: "w \<in> set (wordListOf s)" "k = processWord w"
    by blast
  from c w(2) processWord_set [of w] have "c \<in> set w \<or> c = SP \<or> c \<in> set EOW"
    by blast
  then show "goodChar c \<or> c = SP"
    using wordListOf_good [OF w(1)] EOW_good by blast
qed

lemma SP_not_good: "\<not> goodChar SP"
  by (simp add: goodChar_def SP_white)

lemma goodTable_symbol:
  assumes "goodTable W" "(word, freq) \<in> set W" "s \<in> set (splitSpace word)" "c \<in> set s"
  shows "goodChar c"
proof -
  from assms(3,4) have "c \<in> set word" "c \<noteq> SP"
    using splitSpace_set splitSpace_free by blast+
  moreover have "word \<in> fst ` set W"
    using assms(2) by force
  ultimately show ?thesis
    using assms(1) unfolding goodTable_def by blast
qed

lemma allCharsOf_symbols:
  assumes "s \<in> set (allCharsOf W)"
  shows "\<exists>word freq. (word, freq) \<in> set W \<and> s \<in> set (splitSpace word)"
proof -
  define f :: "string \<Rightarrow> string list \<Rightarrow> string list"
    where "f = (\<lambda>char acc. if char \<noteq> EOW \<and> length char > 0 then setAdd char acc else acc)"
  have f: "set (f a acc) \<subseteq> insert a (set acc)" for a acc
    by (auto simp: f_def setAdd_def)
  have inner: "set (fold f syms acc) \<subseteq> set acc \<union> set syms" for syms acc
  proof (induction syms arbitrary: acc)
    case Nil
    then show ?case by simp
  next
    case (Cons a syms)
    from Cons [of "f a acc"] f [of a acc] show ?case by auto
  qed
  have outer: "set (fold (\<lambda>word allChars. fold f (splitSpace word) allChars) ks acc)
      \<subseteq> set acc \<union> (\<Union>k\<in>set ks. set (splitSpace k))" for ks acc
  proof (induction ks arbitrary: acc)
    case Nil
    then show ?case by simp
  next
    case (Cons k ks)
    from Cons [of "fold f (splitSpace k) acc"] inner [of "splitSpace k" acc]
    show ?case by auto
  qed
  from assms have "s \<in> set (fold (\<lambda>word allChars. fold f (splitSpace word) allChars)
      (map fst W) [])"
    by (simp add: allCharsOf_def f_def)
  with outer [of "map fst W" "[]"] obtain x where "x \<in> set W" "s \<in> set (splitSpace (fst x))"
    by auto
  then have "(fst x, snd x) \<in> set W \<and> s \<in> set (splitSpace (fst x))"
    by simp
  then show ?thesis by blast
qed


lemma goodTokens_seed:
  assumes "goodTable W"
  shows "goodTokens cfg (seedVocabulary cfg W)"
proof -
  have "goodTokens cfg ([], [], 0)"
    by (simp add: goodTokens_def tokensOf_def)
  moreover have "\<forall>t\<in>set (specialTokens cfg). goodToken cfg t"
    by (simp add: goodToken_def)
  ultimately have "goodTokens cfg (fold setToken (specialTokens cfg) ([], [], 0))"
    by (rule goodTokens_fold_setToken)
  moreover have "\<forall>t\<in>set (sort (allCharsOf W)). goodToken cfg t"
  proof
    fix t assume "t \<in> set (sort (allCharsOf W))"
    then have "t \<in> set (allCharsOf W)" by simp
    from allCharsOf_symbols [OF this] obtain word freq where
      "(word, freq) \<in> set W" "t \<in> set (splitSpace word)"
      by blast
    with assms have "\<forall>c\<in>set t. goodChar c"
      using goodTable_symbol by blast
    then show "goodToken cfg t" by (simp add: goodToken_def)
  qed
  ultimately have "goodTokens cfg (fold addToken (sort (allCharsOf W))
      (fold setToken (specialTokens cfg) ([], [], 0)))"
    by (rule goodTokens_fold_addToken)
  moreover have "goodToken cfg EOW"
    by (simp add: goodToken_def EOW_good)
  ultimately show ?thesis
    unfolding seedVocabulary_def by (rule goodTokens_addToken)
qed

lemma goodTable_applyMerge:
  assumes "goodTable W" "\<forall>c\<in>set a. goodChar c" "\<forall>c\<in>set b. goodChar c"
  shows "goodTable (applyMerge W (a, b))"
  unfolding goodTable_def applyMerge_keys
proof (intro ballI)
  fix k c assume "k \<in> mergeWord (a, b) ` fst ` set W" and c: "c \<in> set k"
  then obtain word where w: "word \<in> fst ` set W" "k = mergeWord (a, b) word"
    by blast
  from c w(2) mergeWord_set [of a b word] have "c \<in> set word \<or> c \<in> set a \<or> c \<in> set b"
    by blast
  with assms w(1) show "goodChar c \<or> c = SP"
    unfolding goodTable_def by blast
qed

lemma train_good:
  fixes st :: bpe and s :: string
  defines "r \<equiv> trainLoop (config st) (seedVocabulary (config st) (wordTable (wordListOf s))) []
       (wordTable (wordListOf s)) 0"
  shows "goodTokens (config st) (fst r)"
proof -
  let ?I = "\<lambda>v (m :: (string \<times> string) list) W. goodTokens (config st) v \<and> goodTable W"
  have step: "?I (addToken (a @ b) v) (m @ [(a, b)]) (applyMerge W (a, b))"
    if "?I v m W" "(pairKey a b, c) \<in> set (countPairs W)" "SP \<notin> set a" "SP \<notin> set b"
    for v m W a b c
  proof -
    from countPairs_adjacent [OF that(2-4)] obtain word freq pre post where
      w: "(word, freq) \<in> set W" "splitSpace word = pre @ a # b # post"
      by blast
    then have ab: "a \<in> set (splitSpace word)" "b \<in> set (splitSpace word)"
      by simp_all
    from that(1) have gt: "goodTable W" and gv: "goodTokens (config st) v"
      by simp_all
    have g: "\<forall>c\<in>set a. goodChar c" "\<forall>c\<in>set b. goodChar c"
      using goodTable_symbol [OF gt w(1) ab(1)] goodTable_symbol [OF gt w(1) ab(2)] by blast+
    then have "goodToken (config st) (a @ b)"
      by (auto simp: goodToken_def)
    with gv have "goodTokens (config st) (addToken (a @ b) v)"
      by (rule goodTokens_addToken)
    moreover have "goodTable (applyMerge W (a, b))"
      using gt g by (rule goodTable_applyMerge)
    ultimately show ?thesis by simp
  qed
  have init: "?I (seedVocabulary (config st) (wordTable (wordListOf s))) []
      (wordTable (wordListOf s))"
    by (simp add: goodTokens_seed goodTable_wordTable)
  have "\<exists>W'. ?I (fst r) (snd r) W'"
    unfolding r_def
  proof (rule trainLoop_invariant [where I = ?I])
    show "?I (seedVocabulary (config st) (wordTable (wordListOf s))) []
      (wordTable (wordListOf s))"
      by (rule init)
  next
    fix v m W a b c
    assume "?I v m W" "(pairKey a b, c) \<in> set (countPairs W)" "SP \<notin> set a" "SP \<notin> set b"
    then show "?I (addToken (a @ b) v) (m @ [(a, b)]) (applyMerge W (a, b))"
      by (rule step)
  qed
  then show ?thesis by blast
qed


lemma detokenizeLoop_good:
  assumes "\<forall>t\<in>snd ` set (reverseVocabulary st). goodToken (config st) t"
    and "goodWords words" and "\<forall>c\<in>set cur. goodChar c"
  shows "goodWords (fst (detokenizeLoop st ids words cur)) \<and>
         (\<forall>c\<in>set (snd (detokenizeLoop st ids words cur)). goodChar c)"
  using assms(2,3)
proof (induction ids arbitrary: words cur)
  case Nil
  then show ?case by simp
next
  case (Cons i ids)
  show ?case
  proof (cases "map_of (reverseVocabulary st) i")
    case None
    with Cons show ?thesis by simp
  next
    case (Some token)
    then have "token \<in> snd ` set (reverseVocabulary st)"
      by (force dest: map_of_SomeD)
    with assms(1) have tok: "goodToken (config st) token"
      by blast
    consider (empty) "token = []" | (eow) "token \<noteq> []" "token = EOW" "cur \<noteq> []"
      | (eow0) "token \<noteq> []" "token = EOW" "cur = []"
      | (special) "token \<noteq> []" "token \<noteq> EOW" "token \<in> set (specialTokens (config st))"
      | (other) "token \<noteq> []" "token \<noteq> EOW" "token \<notin> set (specialTokens (config st))"
      by blast
    then show ?thesis
    proof cases
      case empty
      with Some Cons show ?thesis by simp
    next
      case eow
      from Cons.prems eow(3) have "goodWords (words @ [cur])"
        by (simp add: goodWords_def)
      from Cons.IH [OF this, of "[]"] Some eow show ?thesis by simp
    next
      case eow0
      from Cons.IH [OF Cons.prems(1), of "[]"] Some eow0 show ?thesis by simp
    next
      case special
      with Some Cons show ?thesis by simp
    next
      case other
      with tok have "\<forall>c\<in>set token. goodChar c"
        by (simp add: goodToken_def)
      with Cons.prems(2) have "\<forall>c\<in>set (cur @ token). goodChar c"
        by auto
      from Cons.IH [OF Cons.prems(1) this] Some other show ?thesis by simp
    qed
  qed
qed

lemma detokenize_good:
  assumes "\<forall>t\<in>snd ` set (reverseVocabulary st). goodToken (config st) t"
  shows "\<exists>ws. goodWords ws \<and> detokenize st ids = joinWith [SP] ws"
proof (cases "ids = []")
  case True
  have "goodWords [] \<and> detokenize st ids = joinWith [SP] []"
    using True by (simp add: detokenize_def goodWords_def)
  then show ?thesis by blast
next
  case False
  obtain ws cur where r: "detokenizeLoop st ids [] [] = (ws, cur)"
    by (cases "detokenizeLoop st ids [] []")
  from detokenizeLoop_good [OF assms, of "[]" "[]" ids] r
  have g: "goodWords ws" "\<forall>c\<in>set cur. goodChar c"
    by (simp_all add: goodWords_def)
  let ?ws = "if cur \<noteq> [] then ws @ [cur] else ws"
  from g have "goodWords ?ws"
    by (simp add: goodWords_def)
  moreover have "detokenize st ids = joinWith [SP] ?ws"
    using False r by (simp add: detokenize_def)
  ultimately show ?thesis by blast
qed

lemma goodChar_not_SP: "goodChar c \<Longrightarrow> c \<noteq> SP"
  using SP_not_good by blast

lemma adjacentSpaces_Cons: "a \<noteq> SP \<Longrightarrow> adjacentSpaces (a # r) = adjacentSpaces r"
  by (cases r) auto

lemma adjacentSpaces_append: "\<forall>c\<in>set w. c \<noteq> SP \<Longrightarrow> adjacentSpaces (w @ r) = adjacentSpaces r"
  by (induction w) (simp_all add: adjacentSpaces_Cons)

lemma joinWith_good:
  assumes "goodWords ws"
  shows "\<not> hasUpperCase (joinWith [SP] ws)" and "\<not> irregularWhiteSpace (joinWith [SP] ws)"
proof -
  have chars: "\<forall>c\<in>set (joinWith [SP] ws). goodChar c \<or> c = SP"
    using joinWith_set [of "[SP]" ws] assms unfolding goodWords_def by fastforce
  then show "\<not> hasUpperCase (joinWith [SP] ws)"
    unfolding hasUpperCase_def using SP_lower by (auto simp: goodChar_def)
  have ws: "\<not> (\<exists>c\<in>set (joinWith [SP] ws). isWhiteSpace c \<and> c \<noteq> SP)"
    using chars by (auto simp: goodChar_def)
  have ends: "ws \<noteq> [] \<Longrightarrow> joinWith [SP] ws \<noteq> [] \<and> hd (joinWith [SP] ws) = hd (hd ws)
      \<and> last (joinWith [SP] ws) = last (last ws) \<and> \<not> adjacentSpaces (joinWith [SP] ws)"
    using assms
  proof (induction "[SP]" ws rule: joinWith.induct)
    case 1
    then show ?case by simp
  next
    case (2 x)
    then have "\<forall>c\<in>set x. c \<noteq> SP"
      by (auto simp: goodWords_def dest: goodChar_not_SP)
    from adjacentSpaces_append [OF this, of "[]"] 2 show ?case
      by (simp add: goodWords_def)
  next
    case (3 x y ys)
    then have x: "x \<noteq> []" "\<forall>c\<in>set x. c \<noteq> SP" and y0: "y \<noteq> []" "\<forall>c\<in>set y. c \<noteq> SP"
      and g: "goodWords (y # ys)"
      by (auto simp: goodWords_def dest: goodChar_not_SP)
    from y0 have y: "y \<noteq> []" "hd y \<noteq> SP"
      by (cases y; simp)+
    from 3(1) g have ih: "joinWith [SP] (y # ys) \<noteq> []"
      "hd (joinWith [SP] (y # ys)) = hd y"
      "last (joinWith [SP] (y # ys)) = last (last (y # ys))"
      "\<not> adjacentSpaces (joinWith [SP] (y # ys))"
      by simp_all
    obtain c cs where j: "joinWith [SP] (y # ys) = c # cs"
      using ih(1) by (cases "joinWith [SP] (y # ys)") auto
    with ih(2) y have c: "c \<noteq> SP" by simp
    have "adjacentSpaces (x @ SP # c # cs) = adjacentSpaces (SP # c # cs)"
      using adjacentSpaces_append [OF x(2)] by simp
    also have "\<dots> = adjacentSpaces (c # cs)"
      using c by simp
    finally have "\<not> adjacentSpaces (x @ SP # joinWith [SP] (y # ys))"
      using ih(4) j by simp
    with x ih show ?case by simp
  qed
  show "\<not> irregularWhiteSpace (joinWith [SP] ws)"
  proof (cases "ws = []")
    case True
    then show ?thesis by (simp add: irregularWhiteSpace_def)
  next
    case False
    then have "hd ws \<in> set ws" "last ws \<in> set ws" by simp_all
    with assms have ne: "hd ws \<noteq> []" "last ws \<noteq> []"
      and gc: "\<forall>c\<in>set (hd ws). goodChar c" "\<forall>c\<in>set (last ws). goodChar c"
      by (auto simp: goodWords_def)
    from ne have "hd (hd ws) \<in> set (hd ws)" "last (last ws) \<in> set (last ws)"
      by simp_all
    with gc have "hd (hd ws) \<noteq> SP" "last (last ws) \<noteq> SP"
      using goodChar_not_SP by blast+
    with ends [OF False] ws show ?thesis
      by (simp add: irregularWhiteSpace_def)
  qed
qed


lemma validateRoundTrip_after_train:
  assumes "hasUpperCase s \<or> irregularWhiteSpace s"
  shows "\<not> isValid (validateRoundTrip (snd (train st s)) s)"
proof (cases "trim s = []")
  case True
  then have "tokenize (snd (train st s)) s = Inl NotTrained"
    by (simp add: tokenize_def train_failed_fields)
  then show ?thesis
    by (simp add: validateRoundTrip_def)
next
  case False
  let ?st = "snd (train st s)"
  let ?r = "trainLoop (config st) (seedVocabulary (config st) (wordTable (wordListOf s))) []
       (wordTable (wordListOf s)) 0"
  have "goodTokens (config st) (fst ?r)"
    by (rule train_good)
  then have good: "\<forall>t\<in>snd ` set (reverseVocabulary ?st). goodToken (config ?st) t"
    by (simp add: goodTokens_def tokensOf_def train_fields [OF False])
  show ?thesis
  proof (cases "tokenize ?st s")
    case (Inl e)
    then show ?thesis by (simp add: validateRoundTrip_def)
  next
    case (Inr tokens)
    from detokenize_good [OF good, of tokens] obtain ws where
      ws: "goodWords ws" "detokenize ?st tokens = joinWith [SP] ws"
      by blast
    from joinWith_good [OF ws(1)] assms have "s \<noteq> joinWith [SP] ws"
      by auto
    with Inr ws(2) show ?thesis
      by (simp add: validateRoundTrip_def Let_def)
  qed
qed

text \<open>
  Claim C10. \<open>validateRoundTrip\<close> has a result for every state and every text: its whole
  body is inside the \<open>try\<close>, and the model's function is total. When encoding fails, the
  result is not valid and its error list is not empty. When encoding succeeds, the result
  is valid exactly when the decoded text equals the text. The error list is empty exactly
  when the result is valid. After training on a text with a character that lower-casing
  changes or with irregular white space (a white-space character other than the space, a
  space at either end, two spaces in a row), validating that text is not valid, whatever
  the state before the training was.
\<close>

theorem validateRoundTrip_reports:
  "(\<forall>e. tokenize st text = Inl e \<longrightarrow>
      \<not> isValid (validateRoundTrip st text) \<and> errors (validateRoundTrip st text) \<noteq> []) \<and>
   (\<forall>tokens. tokenize st text = Inr tokens \<longrightarrow>
      (isValid (validateRoundTrip st text) \<longleftrightarrow> detokenize st tokens = text)) \<and>
   (errors (validateRoundTrip st text) = [] \<longleftrightarrow> isValid (validateRoundTrip st text)) \<and>
   (hasUpperCase text \<or> irregularWhiteSpace text \<longrightarrow>
      \<not> isValid (validateRoundTrip (snd (train st text)) text))"
proof -
  have "errors (validateRoundTrip st text) = [] \<longleftrightarrow> isValid (validateRoundTrip st text)"
    by (cases "tokenize st text") (simp_all add: validateRoundTrip_def Let_def)
  moreover have "\<forall>e. tokenize st text = Inl e \<longrightarrow>
      \<not> isValid (validateRoundTrip st text) \<and> errors (validateRoundTrip st text) \<noteq> []"
    by (simp add: validateRoundTrip_def)
  moreover have "\<forall>tokens. tokenize st text = Inr tokens \<longrightarrow>
      (isValid (validateRoundTrip st text) \<longleftrightarrow> detokenize st tokens = text)"
    by (auto simp: validateRoundTrip_def Let_def)
  ultimately show ?thesis
    using validateRoundTrip_after_train [of "text" st] by blast
qed

text \<open>
  The default tokenizer trained on \<open>Ab  c\<close> (an upper-case letter, two spaces in a row)
  does not validate that text; before any training, validating \<open>ab\<close> fails in the encoder;
  trained on \<open>ab\<close>, the tokenizer encodes \<open>ab\<close> as three ids, decodes them to \<open>ab\<close>, and the
  result is valid.
\<close>

theorem validateRoundTrip_reports_witness:
  "hasUpperCase ''Ab  c'' \<and> irregularWhiteSpace ''Ab  c'' \<and>
   \<not> isValid (validateRoundTrip (snd (train (newTokenizer defaultConfig) ''Ab  c'')) ''Ab  c'') \<and>
   tokenize (newTokenizer defaultConfig) ''ab'' = Inl NotTrained \<and>
   \<not> isValid (validateRoundTrip (newTokenizer defaultConfig) ''ab'') \<and>
   errors (validateRoundTrip (newTokenizer defaultConfig) ''ab'') \<noteq> [] \<and>
   tokenize (snd (train (newTokenizer defaultConfig) ''ab'')) ''ab'' = Inr [4, 5, 6] \<and>
   detokenize (snd (train (newTokenizer defaultConfig) ''ab'')) [4, 5, 6] = ''ab'' \<and>
   isValid (validateRoundTrip (snd (train (newTokenizer defaultConfig) ''ab'')) ''ab'') \<and>
   errors (validateRoundTrip (snd (train (newTokenizer defaultConfig) ''ab'')) ''ab'') = []"
proof -
  let ?t = "snd (train (newTokenizer defaultConfig) ''ab'')"
  have u: "hasUpperCase ''Ab  c''" by code_simp
  have i: "irregularWhiteSpace ''Ab  c''" by code_simp
  have t: "tokenize (newTokenizer defaultConfig) ''ab'' = Inl NotTrained" by code_simp
  have e: "tokenize ?t ''ab'' = Inr [4, 5, 6]" by code_simp
  have d: "detokenize ?t [4, 5, 6] = ''ab''" by code_simp
  from validateRoundTrip_reports [of "newTokenizer defaultConfig" "''Ab  c''"] u
  have a: "\<not> isValid (validateRoundTrip (snd (train (newTokenizer defaultConfig) ''Ab  c'')) ''Ab  c'')"
    by blast
  from validateRoundTrip_reports [of "newTokenizer defaultConfig" "''ab''"] t
  have b: "\<not> isValid (validateRoundTrip (newTokenizer defaultConfig) ''ab'') \<and>
      errors (validateRoundTrip (newTokenizer defaultConfig) ''ab'') \<noteq> []"
    by blast
  from validateRoundTrip_reports [of ?t "''ab''"] e d
  have c: "isValid (validateRoundTrip ?t ''ab'') \<and> errors (validateRoundTrip ?t ''ab'') = []"
    by blast
  from u i a t b e d c show ?thesis by blast
qed

end
